theory Spec2Isabelle
  imports Main
begin

section \<open>Python values and strings\<close>

text \<open>
  A Python \<open>str\<close> is a sequence of code points. It is modelled as a \<open>string\<close> in which
  every \<open>char\<close> is one code point in the range 0..255 (ASCII and Latin-1), so \<open>length\<close>
  counts code points as Python's \<open>len\<close> does. Titles with code points above 255 are outside
  the model: the type excludes them. On the code points 0..255 the functions below agree
  with CPython 3: \<open>str.isspace\<close>, \<open>str.lower\<close>, \<open>str.strip\<close>, \<open>str.split\<close>, \<open>in\<close>.
\<close>

datatype pyval = PyNone | PyStr string

text \<open>Truthiness (\<open>if x\<close>, \<open>not x\<close>) and f-string formatting (\<open>f"{x}"\<close>) of a value.\<close>

fun truthy :: "pyval \<Rightarrow> bool" where
  "truthy PyNone = False"
| "truthy (PyStr s) = (s \<noteq> [])"

fun fmt :: "pyval \<Rightarrow> string" where
  "fmt PyNone = ''None''"
| "fmt (PyStr s) = s"

text \<open>The whitespace of \<open>str.strip()\<close> and of the pattern \<open>\s\<close>: code points
  9..13, 28..32, 133 and 160.\<close>

definition is_space :: "char \<Rightarrow> bool" where
  "is_space c \<longleftrightarrow> c \<in> set [CHR 0x09, CHR 0x0A, CHR 0x0B, CHR 0x0C, CHR 0x0D,
      CHR 0x1C, CHR 0x1D, CHR 0x1E, CHR 0x1F, CHR 0x20, CHR 0x85, CHR 0xA0]"

text \<open>\<open>str.lower\<close> on one code point: A..Z and the Latin-1 capitals 192..214, 216..222
  move up by 32; nothing else changes.\<close>

definition lower_char :: "char \<Rightarrow> char" where
  "lower_char c =
     (let n = (of_char c :: nat)
      in if (65 \<le> n \<and> n \<le> 90) \<or> (192 \<le> n \<and> n \<le> 214) \<or> (216 \<le> n \<and> n \<le> 222)
         then char_of (n + 32) else c)"

definition lower :: "string \<Rightarrow> string" where
  "lower s = map lower_char s"

definition startswith :: "string \<Rightarrow> string \<Rightarrow> bool" where
  "startswith s p \<longleftrightarrow> take (length p) s = p"

text \<open>\<open>sub in s\<close> on strings.\<close>

fun contains :: "string \<Rightarrow> string \<Rightarrow> bool" where
  "contains [] sub = (sub = [])"
| "contains (c # cs) sub = (startswith (c # cs) sub \<or> contains cs sub)"

text \<open>\<open>s.strip()\<close> and \<open>s.strip(chars)\<close>.\<close>

definition strip_where :: "(char \<Rightarrow> bool) \<Rightarrow> string \<Rightarrow> string" where
  "strip_where P s = rev (dropWhile P (rev (dropWhile P s)))"

definition strip :: "string \<Rightarrow> string" where
  "strip s = strip_where is_space s"

definition strip_chars :: "string \<Rightarrow> string \<Rightarrow> string" where
  "strip_chars chars s = strip_where (\<lambda>c. c \<in> set chars) s"

text \<open>\<open>s.split(sep)[0]\<close> and \<open>s.split(sep)[-1]\<close> for a one-character separator.\<close>

definition split_first :: "char \<Rightarrow> string \<Rightarrow> string" where
  "split_first sep s = takeWhile (\<lambda>c. c \<noteq> sep) s"

definition split_last :: "char \<Rightarrow> string \<Rightarrow> string" where
  "split_last sep s = rev (takeWhile (\<lambda>c. c \<noteq> sep) (rev s))"


section \<open>The regular expressions of module \<open>re\<close>\<close>

text \<open>
  The patterns of the source are written as syntax trees and run by a backtracking
  matcher that returns every way a pattern can match, in the order in which Python's
  matcher tries them; the first one is the match Python reports.

  An atom matches one code point: a literal, \<open>.\<close> (anything but a newline), a class
  \<open>[...]\<close> or a negated class \<open>[^...]\<close>. A class item is a literal, a literal above
  code point 255 (given by its number; it matches no code point of the model) or \<open>\s\<close>.
  Every repetition of the source's patterns is over one atom: \<open>Rep a n True\<close> is the
  greedy \<open>a{n,}\<close>, \<open>Rep a n False\<close> the lazy \<open>a{n,}?\<close>.
\<close>

datatype citem = Ch char | Cp int | Sp

datatype atom = Lit char | Dot | Cls "citem list" | NCls "citem list"

datatype regex =
    A atom
  | Bol
  | Eol
  | Eps
  | Seq regex regex
  | Alt regex regex
  | Opt regex
  | Rep atom nat bool
  | Grp nat regex

text \<open>The matcher's state: the text not yet consumed, the position reached, and the
  capture groups closed so far, latest first.\<close>

record mstate =
  rest :: string
  pos :: nat
  groups :: "(nat \<times> string) list"

text \<open>With \<open>re.IGNORECASE\<close> (\<open>ic\<close>) a literal matches when the lowercased code points agree.\<close>

fun citem_ok :: "bool \<Rightarrow> citem \<Rightarrow> char \<Rightarrow> bool" where
  "citem_ok ic (Ch p) c = (if ic then lower_char c = lower_char p else c = p)"
| "citem_ok ic (Cp n) c = (of_char c = n)"
| "citem_ok ic Sp c = is_space c"

fun atom_ok :: "bool \<Rightarrow> atom \<Rightarrow> char \<Rightarrow> bool" where
  "atom_ok ic (Lit p) c = (if ic then lower_char c = lower_char p else c = p)"
| "atom_ok ic Dot c = (c \<noteq> CHR 0x0A)"
| "atom_ok ic (Cls items) c = (\<exists>i \<in> set items. citem_ok ic i c)"
| "atom_ok ic (NCls items) c = (\<not> (\<exists>i \<in> set items. citem_ok ic i c))"

definition advance :: "nat \<Rightarrow> mstate \<Rightarrow> mstate" where
  "advance k st = st\<lparr>rest := drop k (rest st), pos := pos st + k\<rparr>"

text \<open>\<open>$\<close> without \<open>re.MULTILINE\<close> matches at the end of the text and before a newline
  that ends the text; \<open>^\<close> matches at position 0 only.\<close>

primrec re_m :: "bool \<Rightarrow> regex \<Rightarrow> mstate \<Rightarrow> mstate list" where
  "re_m ic (A a) st =
     (case rest st of [] \<Rightarrow> [] | c # cs \<Rightarrow> if atom_ok ic a c then [advance 1 st] else [])"
| "re_m ic Bol st = (if pos st = 0 then [st] else [])"
| "re_m ic Eol st = (if rest st = [] \<or> rest st = [CHR 0x0A] then [st] else [])"
| "re_m ic Eps st = [st]"
| "re_m ic (Seq r1 r2) st = concat (map (re_m ic r2) (re_m ic r1 st))"
| "re_m ic (Alt r1 r2) st = re_m ic r1 st @ re_m ic r2 st"
| "re_m ic (Opt r) st = re_m ic r st @ [st]"
| "re_m ic (Rep a n greedy) st =
     (let most = length (takeWhile (atom_ok ic a) (rest st));
          counts = (if greedy then rev [n..<Suc most] else [n..<Suc most])
      in map (\<lambda>k. advance k st) counts)"
| "re_m ic (Grp i r) st =
     map (\<lambda>st'. st'\<lparr>groups := (i, take (pos st' - pos st) (rest st)) # groups st'\<rparr>)
       (re_m ic r st)"

definition group :: "mstate \<Rightarrow> nat \<Rightarrow> string option" where
  "group st i = map_of (groups st) i"

text \<open>\<open>match.lastindex\<close>: the group that closed last.\<close>

definition lastindex :: "mstate \<Rightarrow> nat option" where
  "lastindex st = (case groups st of [] \<Rightarrow> None | (i, _) # _ \<Rightarrow> Some i)"

text \<open>\<open>re.match\<close>: a match at position 0.\<close>

definition re_match :: "bool \<Rightarrow> regex \<Rightarrow> string \<Rightarrow> mstate option" where
  "re_match ic r s =
     (case re_m ic r \<lparr>rest = s, pos = 0, groups = []\<rparr> of [] \<Rightarrow> None | st # _ \<Rightarrow> Some st)"

text \<open>\<open>re.search\<close>: the first match at the leftmost position that has one.\<close>

fun search_from :: "bool \<Rightarrow> regex \<Rightarrow> nat \<Rightarrow> string \<Rightarrow> mstate option" where
  "search_from ic r p [] =
     (case re_m ic r \<lparr>rest = [], pos = p, groups = []\<rparr> of [] \<Rightarrow> None | st # _ \<Rightarrow> Some st)"
| "search_from ic r p (c # cs) =
     (case re_m ic r \<lparr>rest = c # cs, pos = p, groups = []\<rparr> of
        [] \<Rightarrow> search_from ic r (Suc p) cs
      | st # _ \<Rightarrow> Some st)"

definition re_search :: "bool \<Rightarrow> regex \<Rightarrow> string \<Rightarrow> mstate option" where
  "re_search ic r s = search_from ic r 0 s"

text \<open>
  \<open>re.sub(pattern, repl, s)\<close> for a replacement without group references: the matches
  are found from left to right and do not overlap. \<open>match_len\<close> is the length of the
  first match at the current position, \<open>match_len_adv\<close> that of the first match there
  that is not empty (the search after an empty match must advance). \<open>skip\<close> counts the
  code points of the current match that are still to be dropped.
\<close>

definition match_len :: "bool \<Rightarrow> regex \<Rightarrow> nat \<Rightarrow> string \<Rightarrow> nat option" where
  "match_len ic r p s =
     (case re_m ic r \<lparr>rest = s, pos = p, groups = []\<rparr> of
        [] \<Rightarrow> None | st # _ \<Rightarrow> Some (pos st - p))"

definition match_len_adv :: "bool \<Rightarrow> regex \<Rightarrow> nat \<Rightarrow> string \<Rightarrow> nat option" where
  "match_len_adv ic r p s =
     (case filter (\<lambda>st. pos st \<noteq> p) (re_m ic r \<lparr>rest = s, pos = p, groups = []\<rparr>) of
        [] \<Rightarrow> None | st # _ \<Rightarrow> Some (pos st - p))"

fun sub_from :: "bool \<Rightarrow> regex \<Rightarrow> string \<Rightarrow> nat \<Rightarrow> nat \<Rightarrow> string \<Rightarrow> string" where
  "sub_from ic r repl p skip [] =
     (if skip = 0 \<and> match_len ic r p [] \<noteq> None then repl else [])"
| "sub_from ic r repl p skip (c # cs) =
     (if skip \<noteq> 0 then sub_from ic r repl (Suc p) (skip - 1) cs
      else case match_len ic r p (c # cs) of
        None \<Rightarrow> c # sub_from ic r repl (Suc p) 0 cs
      | Some 0 \<Rightarrow>
          repl @ (case match_len_adv ic r p (c # cs) of
                    None \<Rightarrow> c # sub_from ic r repl (Suc p) 0 cs
                  | Some n \<Rightarrow> repl @ sub_from ic r repl (Suc p) (n - 1) cs)
      | Some (Suc n) \<Rightarrow> repl @ sub_from ic r repl (Suc p) n cs)"

definition re_sub :: "bool \<Rightarrow> regex \<Rightarrow> string \<Rightarrow> string \<Rightarrow> string" where
  "re_sub ic r repl s = sub_from ic r repl 0 0 s"

text \<open>Building blocks for writing the patterns down.\<close>

definition lits :: "string \<Rightarrow> regex" where
  "lits s = foldr (\<lambda>c r. Seq (A (Lit c)) r) s Eps"

definition seqs :: "regex list \<Rightarrow> regex" where
  "seqs rs = foldr Seq rs Eps"

fun alts :: "regex list \<Rightarrow> regex" where
  "alts [] = Eps"
| "alts [r] = r"
| "alts (r # rs) = Alt r (alts rs)"

abbreviation star :: "atom \<Rightarrow> regex" where "star a \<equiv> Rep a 0 True"
abbreviation star_lazy :: "atom \<Rightarrow> regex" where "star_lazy a \<equiv> Rep a 0 False"
abbreviation plus :: "atom \<Rightarrow> regex" where "plus a \<equiv> Rep a 1 True"
abbreviation plus_lazy :: "atom \<Rightarrow> regex" where "plus_lazy a \<equiv> Rep a 1 False"
abbreviation ws :: "atom" where "ws \<equiv> Cls [Sp]"


section \<open>\<open>clean_title\<close>\<close>

text \<open>The patterns of \<open>clean_title\<close>, in the order of their use:
  \<^verbatim>\<open>(?i)\s*(official\s*(video|audio|lyric video|music video)?|lyrics?|hd|4k|mv|visualizer)\s*$\<close>,
  \<^verbatim>\<open>(?i)\s*-\s*(vevo|topic)\s*$\<close>, \<^verbatim>\<open>["']\<close>, \<^verbatim>\<open>\s+\<close>,
  \<^verbatim>\<open>[\(\[].*?[\)\]]\<close>, the alternation of the list \<open>unwanted\<close>, and \<^verbatim>\<open>\s{2,}\<close>.\<close>

definition re_promo_suffix :: regex where
  "re_promo_suffix =
     seqs [star ws,
           Grp 1 (alts [
             seqs [lits ''official'', star ws,
                   Opt (Grp 2 (alts [lits ''video'', lits ''audio'', lits ''lyric video'',
                                     lits ''music video'']))],
             seqs [lits ''lyric'', Opt (A (Lit CHR ''s''))],
             lits ''hd'', lits ''4k'', lits ''mv'', lits ''visualizer'']),
           star ws, Eol]"

definition re_channel_suffix :: regex where
  "re_channel_suffix =
     seqs [star ws, A (Lit CHR ''-''), star ws, Grp 1 (alts [lits ''vevo'', lits ''topic'']),
           star ws, Eol]"

definition re_quotes :: regex where
  "re_quotes = A (Cls [Ch (CHR 0x22), Ch (CHR 0x27)])"

definition re_spaces :: regex where
  "re_spaces = plus ws"

definition re_bracketed :: regex where
  "re_bracketed =
     seqs [A (Cls [Ch CHR ''('', Ch CHR ''['']), star_lazy Dot, A (Cls [Ch CHR '')'', Ch CHR '']''])]"

definition unwanted :: "string list" where
  "unwanted = [''official video'', ''official audio'', ''lyric video'',
               ''lyrics'', ''hd'', ''4k'', ''topic'', ''visualizer'',
               ''music video'', ''official music video'', ''mv'']"

definition re_unwanted :: regex where
  "re_unwanted = alts (map lits unwanted)"

definition re_spaces2 :: regex where
  "re_spaces2 = Rep ws 2 True"

definition clean_title :: "string \<Rightarrow> string" where
  "clean_title title0 =
     (let title1 = re_sub True re_promo_suffix [] title0;
          title2 = re_sub True re_channel_suffix [] title1;
          title3 = re_sub False re_quotes [] title2;
          title4 = strip (re_sub False re_spaces '' '' title3);
          title5 = re_sub False re_bracketed [] title4;
          title6 = strip (re_sub False re_spaces '' '' title5);
          title7 = strip_chars '' -:|~'' title6;
          title8 = re_sub True re_unwanted [] title7;
          title9 = strip_chars '' -:|~'' title8;
          title10 = re_sub False re_spaces2 '' '' title9
      in strip title10)"


section \<open>\<open>handle_special_cases\<close>\<close>

text \<open>\<^verbatim>\<open>\((.*?)\s*cover\)\<close>, searched with \<open>re.IGNORECASE\<close>, and
  \<^verbatim>\<open>\s*\(.*?cover\)\<close>, substituted without a flag.\<close>

definition re_cover_search :: regex where
  "re_cover_search =
     seqs [A (Lit CHR ''(''), Grp 1 (star_lazy Dot), star ws, lits ''cover'', A (Lit CHR '')'')]"

definition re_cover_sub :: regex where
  "re_cover_sub =
     seqs [star ws, A (Lit CHR ''(''), star_lazy Dot, lits ''cover'', A (Lit CHR '')'')]"

definition handle_special_cases :: "string \<Rightarrow> pyval \<times> pyval" where
  "handle_special_cases title =
     (if \<exists>x \<in> set [''math rock'', ''midwest emo'', ''mix'', ''playlist'']. contains (lower title) x
      then (PyNone, PyStr (strip (split_first CHR ''|'' title)))
      else if \<exists>x \<in> set [''full album'', ''full ep'', ''[full]'']. contains (lower title) x
      then (PyNone, PyStr (strip (split_first CHR ''['' title)))
      else case re_search True re_cover_search title of
        Some cover_match \<Rightarrow>
          (case group cover_match 1 of
             Some original_artist \<Rightarrow>
               (PyStr original_artist, PyStr (re_sub False re_cover_sub [] title))
           | None \<Rightarrow> (PyNone, PyStr (re_sub False re_cover_sub [] title)))
      | None \<Rightarrow> (PyNone, PyNone))"


section \<open>Exceptions and the module's namespace\<close>

text \<open>The exceptions the modelled code can raise. \<open>ClientError msg\<close> stands for any
  exception raised by \<open>sp_client.search\<close>, with \<open>str(e) = msg\<close>.\<close>

datatype exn =
    NameError string
  | TypeError
  | AttributeError
  | UnboundLocalError string
  | ZeroDivisionError
  | ClientError string

text \<open>
  Python looks the name of a called function up when the call runs, first in the module's
  namespace and then in \<open>builtins\<close>, and raises \<open>NameError\<close> for a name bound in neither.
  \<open>module_names\<close> lists every name that \<open>main.py\<close> binds at module level before its
  \<open>__main__\<close> block (imports, assignments, \<open>def\<close>s). \<open>module_functions\<close> maps the names
  bound to a function from a title to a pair, which is what the call in
  \<open>extract_artist_track\<close> needs, to that function.
\<close>

definition module_names :: "string list" where
  "module_names =
     [''os'', ''re'', ''time'', ''csv'', ''datetime'', ''build'', ''spotipy'', ''SpotifyOAuth'',
      ''CacheFileHandler'', ''load_dotenv'', ''logging'', ''yt_api'', ''sp_client_id'',
      ''sp_client_secret'', ''CACHE_PATH'', ''log'', ''log_match_status'',
      ''get_spotify_client'', ''get_youtube_playlist_items'', ''export_to_csv'',
      ''clean_title'', ''handle_special_cases'', ''extract_artist_track'',
      ''build_spotify_query'', ''match_to_spotify'', ''analyze_unmatched_patterns'',
      ''export_matched_to_csv'', ''export_unmatched_to_csv'',
      ''read_spotify_tracks_from_csv'', ''create_or_use_playlist'',
      ''add_tracks_to_playlist'']"

definition module_functions :: "string \<rightharpoonup> (string \<Rightarrow> pyval \<times> pyval)" where
  "module_functions = [''handle_special_cases'' \<mapsto> handle_special_cases]"


section \<open>\<open>extract_artist_track\<close>\<close>

text \<open>The code points above 255 that the patterns name: en dash, em dash and the two
  curly double quotes.\<close>

definition en_dash :: citem where "en_dash = Cp 0x2013"
definition em_dash :: citem where "em_dash = Cp 0x2014"
definition ldquo :: citem where "ldquo = Cp 0x201C"
definition rdquo :: citem where "rdquo = Cp 0x201D"

text \<open>Pieces that several patterns share: \<^verbatim>\<open>^(.*?)\s*[-:|~]\s*\<close> and
  \<^verbatim>\<open>^(.*?)\s*[-E~|]\s*\<close>, where \<open>E\<close> stands for the en dash.\<close>

definition head_sep1 :: "regex list" where
  "head_sep1 = [Bol, Grp 1 (star_lazy Dot), star ws,
                A (Cls [Ch CHR ''-'', Ch CHR '':'', Ch CHR ''|'', Ch CHR ''~'']), star ws]"

definition head_sep2 :: "regex list" where
  "head_sep2 = [Bol, Grp 1 (star_lazy Dot), star ws,
                A (Cls [Ch CHR ''-'', en_dash, Ch CHR ''~'', Ch CHR ''|'']), star ws]"

definition open_brackets :: "citem list" where
  "open_brackets = [Ch CHR ''('', Ch CHR ''['', Ch CHR ''{'']"

text \<open>The fifteen entries of the list \<open>patterns\<close>, in the source's order. In the
  patterns quoted below \<open>E\<close> and \<open>M\<close> stand for the en dash and the em dash, \<open>L\<close> and
  \<open>R\<close> for the left and right curly double quote.\<close>

text \<open>\<^verbatim>\<open>^(.*?)\s*[-:|~]\s*(.*?)(?:\s+\(.*\))?$\<close>\<close>

definition pattern1 :: regex where
  "pattern1 =
     seqs (head_sep1 @ [Grp 2 (star_lazy Dot),
       Opt (seqs [plus ws, A (Lit CHR ''(''), star Dot, A (Lit CHR '')'')]), Eol])"

text \<open>\<^verbatim>\<open>^(.*?)\s*[-:|~]\s*(.*?)(?:\s+\[.*\])?$\<close>\<close>

definition pattern2 :: regex where
  "pattern2 =
     seqs (head_sep1 @ [Grp 2 (star_lazy Dot),
       Opt (seqs [plus ws, A (Lit CHR ''[''), star Dot, A (Lit CHR '']'')]), Eol])"

text \<open>\<^verbatim>\<open>^(.*?)\s*[-:|~]\s*(.*?)(?:\s+ft\..*)?$\<close>\<close>

definition pattern3 :: regex where
  "pattern3 =
     seqs (head_sep1 @ [Grp 2 (star_lazy Dot),
       Opt (seqs [plus ws, lits ''ft.'', star Dot]), Eol])"

text \<open>\<^verbatim>\<open>^(.*?)\s*[-:|~]\s*(.*)$\<close>\<close>

definition pattern4 :: regex where
  "pattern4 =
     seqs (head_sep1 @ [Grp 2 (star Dot), Eol])"

text \<open>\<^verbatim>\<open>^(.*?)[\s\-EM:|]+(.*?)$\<close>\<close>

definition pattern5 :: regex where
  "pattern5 =
     seqs [Bol, Grp 1 (star_lazy Dot),
       plus (Cls [Sp, Ch CHR ''-'', en_dash, em_dash, Ch CHR '':'', Ch CHR ''|'']),
       Grp 2 (star_lazy Dot), Eol]"

text \<open>\<^verbatim>\<open>^(.*?)\s*["L](.*?)["R]\<close>\<close>

definition pattern6 :: regex where
  "pattern6 =
     seqs [Bol, Grp 1 (star_lazy Dot), star ws, A (Cls [Ch (CHR 0x22), ldquo]),
       Grp 2 (star_lazy Dot), A (Cls [Ch (CHR 0x22), rdquo])]"

text \<open>\<^verbatim>\<open>^(.*?)\s+-\s+(.*?)$\<close>\<close>

definition pattern7 :: regex where
  "pattern7 =
     seqs [Bol, Grp 1 (star_lazy Dot), plus ws, A (Lit CHR ''-''), plus ws,
       Grp 2 (star_lazy Dot), Eol]"

text \<open>\<^verbatim>\<open>^(.*?)\s*[-E~|]\s*([^\(\[\{]+?)\s*(?:\(ft\.\s*(.*?)\)|ft\.\s*(.*?))(?:\s*[\(\[]|\s*$)\<close>\<close>

definition pattern8 :: regex where
  "pattern8 =
     seqs (head_sep2 @ [Grp 2 (plus_lazy (NCls open_brackets)), star ws,
       Alt (seqs [A (Lit CHR ''(''), lits ''ft.'', star ws, Grp 3 (star_lazy Dot),
                  A (Lit CHR '')'')])
           (seqs [lits ''ft.'', star ws, Grp 4 (star_lazy Dot)]),
       Alt (seqs [star ws, A (Cls [Ch CHR ''('', Ch CHR ''[''])])
           (seqs [star ws, Eol])])"

text \<open>\<^verbatim>\<open>^(.*?)\s*[-E~|]\s*([^\(\[\{]+)\<close>\<close>

definition pattern9 :: regex where
  "pattern9 =
     seqs (head_sep2 @ [Grp 2 (plus (NCls open_brackets))])"

text \<open>\<^verbatim>\<open>^(.*?)\s*:\s*([^\(\[\{]+)\<close>\<close>

definition pattern10 :: regex where
  "pattern10 =
     seqs [Bol, Grp 1 (star_lazy Dot), star ws, A (Lit CHR '':''), star ws,
       Grp 2 (plus (NCls open_brackets))]"

text \<open>\<^verbatim>\<open>^(.*?)\s*["L](.+?)["R]\<close>\<close>

definition pattern11 :: regex where
  "pattern11 =
     seqs [Bol, Grp 1 (star_lazy Dot), star ws, A (Cls [Ch (CHR 0x22), ldquo]),
       Grp 2 (plus_lazy Dot), A (Cls [Ch (CHR 0x22), rdquo])]"

text \<open>\<^verbatim>\<open>^(.*?)\s*[-E~|]\s*(.*?)\s*(?:\(live[^\)]*\)|\[live[^\]]*\])\<close>\<close>

definition pattern12 :: regex where
  "pattern12 =
     seqs (head_sep2 @ [Grp 2 (star_lazy Dot), star ws,
       Alt (seqs [A (Lit CHR ''(''), lits ''live'', star (NCls [Ch CHR '')'']), A (Lit CHR '')'')])
           (seqs [A (Lit CHR ''[''), lits ''live'', star (NCls [Ch CHR '']'']), A (Lit CHR '']'')])])"

text \<open>\<^verbatim>\<open>^(.*?)\s*[-E~|]\s*(.*?)\s*(?:\(cover[^\)]*\)|\[cover[^\]]*\])\<close>\<close>

definition pattern13 :: regex where
  "pattern13 =
     seqs (head_sep2 @ [Grp 2 (star_lazy Dot), star ws,
       Alt (seqs [A (Lit CHR ''(''), lits ''cover'', star (NCls [Ch CHR '')'']), A (Lit CHR '')'')])
           (seqs [A (Lit CHR ''[''), lits ''cover'', star (NCls [Ch CHR '']'']), A (Lit CHR '']'')])])"

text \<open>\<^verbatim>\<open>^(.*?)\s*[-E~|]\s*(.*?)\s*(?:\(.*?remix\)|\[.*?remix\])\<close>\<close>

definition pattern14 :: regex where
  "pattern14 =
     seqs (head_sep2 @ [Grp 2 (star_lazy Dot), star ws,
       Alt (seqs [A (Lit CHR ''(''), star_lazy Dot, lits ''remix'', A (Lit CHR '')'')])
           (seqs [A (Lit CHR ''[''), star_lazy Dot, lits ''remix'', A (Lit CHR '']'')])])"

text \<open>\<^verbatim>\<open>^(.*)\s*[-E]\s*(.*)$\<close>\<close>

definition pattern15 :: regex where
  "pattern15 =
     seqs [Bol, Grp 1 (star Dot), star ws, A (Cls [Ch CHR ''-'', en_dash]), star ws,
       Grp 2 (star Dot), Eol]"

definition patterns :: "regex list" where
  "patterns = [pattern1, pattern2, pattern3, pattern4, pattern5,
               pattern6, pattern7, pattern8, pattern9, pattern10,
               pattern11, pattern12, pattern13, pattern14, pattern15]"

text \<open>The body of the loop over \<open>patterns\<close> once a pattern has matched. \<open>.strip()\<close> on
  the \<open>None\<close> of a group that took no part raises \<open>AttributeError\<close>, and
  \<open>None >= 3\<close> raises \<open>TypeError\<close>. \<open>match.group(3) or match.group(4)\<close> is the first of
  the two that is a non-empty string, else the second (only the eighth pattern gets
  here, and it has four groups).\<close>

definition group_val :: "mstate \<Rightarrow> nat \<Rightarrow> pyval" where
  "group_val m i = (case group m i of None \<Rightarrow> PyNone | Some s \<Rightarrow> PyStr s)"

definition on_match :: "mstate \<Rightarrow> exn + (pyval \<times> pyval)" where
  "on_match m =
     (case (group m 1, group m 2) of
        (Some g1, Some g2) \<Rightarrow>
          (let artist = strip g1; track = strip g2
           in case lastindex m of
                None \<Rightarrow> Inl TypeError
              | Some li \<Rightarrow>
                  if li \<ge> 3 then
                    (let feat = (if truthy (group_val m 3) then group_val m 3 else group_val m 4)
                     in case feat of
                          PyStr f \<Rightarrow>
                            if f \<noteq> [] then Inr (PyStr artist, PyStr (track @ '' (feat. '' @ strip f @ '')''))
                            else Inr (PyStr artist, PyStr track)
                        | PyNone \<Rightarrow> Inr (PyStr artist, PyStr track))
                  else Inr (PyStr artist, PyStr track))
      | _ \<Rightarrow> Inl AttributeError)"

fun try_patterns :: "regex list \<Rightarrow> string \<Rightarrow> exn + (pyval \<times> pyval)" where
  "try_patterns [] title = Inr (PyNone, PyStr title)"
| "try_patterns (pattern # ps) title =
     (case re_match True pattern title of
        Some m \<Rightarrow> on_match m
      | None \<Rightarrow> try_patterns ps title)"

text \<open>What \<open>extract_artist_track\<close> does with the pair that its first call returned.\<close>

definition extract_rest :: "pyval \<times> pyval \<Rightarrow> string \<Rightarrow> exn + (pyval \<times> pyval)" where
  "extract_rest special title =
     (case special of (artist, track) \<Rightarrow>
        if artist \<noteq> PyNone then Inr (artist, track)
        else try_patterns patterns (clean_title title))"

text \<open>The function calls the name \<open>handle_special_casese\<close>.\<close>

definition extract_artist_track :: "string \<Rightarrow> exn + (pyval \<times> pyval)" where
  "extract_artist_track title =
     (case module_functions ''handle_special_casese'' of
        None \<Rightarrow> Inl (NameError ''handle_special_casese'')
      | Some f \<Rightarrow> extract_rest (f title) title)"


section \<open>\<open>build_spotify_query\<close>\<close>

text \<open>\<^verbatim>\<open>(\s*-\s*topic|\s*vevo|\s*official)$\<close>, substituted with \<open>re.IGNORECASE\<close>.\<close>

definition re_artist_suffix :: regex where
  "re_artist_suffix =
     seqs [Grp 1 (alts [seqs [star ws, A (Lit CHR ''-''), star ws, lits ''topic''],
                        seqs [star ws, lits ''vevo''],
                        seqs [star ws, lits ''official'']]),
           Eol]"

text \<open>The function returns a \<open>str\<close> on its first path and a \<open>list\<close> on its second.
  Iterating a \<open>str\<close> (\<open>for query in queries\<close>) yields its code points as one-character
  strings.\<close>

datatype queries = QStr string | QList "pyval list"

fun py_iter :: "queries \<Rightarrow> pyval list" where
  "py_iter (QStr s) = map (\<lambda>c. PyStr [c]) s"
| "py_iter (QList qs) = qs"

definition build_spotify_query :: "pyval \<Rightarrow> pyval \<Rightarrow> queries" where
  "build_spotify_query artist track =
     (case artist of
        PyNone \<Rightarrow> QStr (''track:'' @ fmt track)
      | PyStr a \<Rightarrow>
          if a = [] \<or> lower a = ''various artists'' then QStr (''track:'' @ fmt track)
          else
            (let artist_clean = re_sub True re_artist_suffix [] a
             in QList [PyStr (''artist:'' @ artist_clean @ '' track:'' @ fmt track),
                       PyStr (artist_clean @ '' '' @ fmt track),
                       track]))"


section \<open>\<open>match_to_spotify\<close>\<close>

text \<open>
  An entry of \<open>video_data\<close> is a dict with the five keys that
  \<open>get_youtube_playlist_items\<close> writes; the key \<open>title\<close> is always there. An entry
  of \<open>results\<close> is that dict with four more keys. The loop also stores \<open>spotify_uri\<close> and
  \<open>query_used\<close> into the input dict when a query has a hit; the result dict lists both keys
  after \<open>**item\<close>, so these stores do not show in \<open>results\<close> and are left out.
  \<open>match_status\<close> is a check mark, a cross, or a warning sign followed by \<open>str(e)\<close> in
  parentheses; the model keeps the exception itself.
\<close>

record video =
  title :: string
  video_id :: string
  url :: string
  channel :: string
  position :: nat

datatype status = Check | Cross | Warning exn

record row =
  item :: video
  spotify_uri :: pyval
  spotify_url :: pyval
  match_status :: status
  query_used :: pyval

text \<open>
  \<open>sp_client.search(q=query, type="track", limit=5)\<close> is outside the program. It is a
  parameter \<open>search\<close>: given the number of calls made before and the query, it either
  raises (\<open>Inl msg\<close>) or returns the list \<open>result['tracks']['items']\<close>, of which the model
  keeps each hit's \<open>uri\<close>.

  The local variables \<open>query\<close> and \<open>result\<close> belong to the function, not to one round of
  the loop: they keep their values from one item to the next, and are unbound (\<open>None\<close>
  here) until first assigned.
\<close>

type_synonym search_fn = "nat \<Rightarrow> pyval \<Rightarrow> string + string list"

record locals =
  l_query :: "pyval option"
  l_result :: "string list option"
  l_calls :: nat

text \<open>The inner loop \<open>for query in queries\<close>: it ends at the first query with a hit
  (\<open>break\<close>), at the end of the queries, or with the exception of a call.\<close>

fun query_loop :: "search_fn \<Rightarrow> pyval list \<Rightarrow> locals \<Rightarrow> locals \<times> exn option" where
  "query_loop search [] L = (L, None)"
| "query_loop search (q # qs) L =
     (let L1 = L\<lparr>l_query := Some q, l_calls := Suc (l_calls L)\<rparr>
      in case search (l_calls L) q of
           Inl msg \<Rightarrow> (L1, Some (ClientError msg))
         | Inr hits \<Rightarrow>
             (let L2 = L1\<lparr>l_result := Some hits\<rparr>
              in if hits \<noteq> [] then (L2, None) else query_loop search qs L2))"

text \<open>The \<open>except\<close> branch: \<open>query if 'query' in locals() else "N/A"\<close>.\<close>

definition error_row :: "video \<Rightarrow> locals \<Rightarrow> exn \<Rightarrow> row" where
  "error_row it L e =
     \<lparr>item = it, spotify_uri = PyNone, spotify_url = PyNone, match_status = Warning e,
      query_used = (case l_query L of None \<Rightarrow> PyStr ''N/A'' | Some q \<Rightarrow> q)\<rparr>"

text \<open>The browsable address of a catalog URI, as the result dict builds it:
  \<^verbatim>\<open>f"https://open.spotify.com/track/{spotify_uri.split(':')[-1]}"\<close>.\<close>

definition uri_to_url :: "string \<Rightarrow> string" where
  "uri_to_url uri = ''https://open.spotify.com/track/'' @ split_last CHR '':'' uri"

text \<open>One round of the outer loop: the \<open>try\<close> block and its \<open>except\<close> branch. It
  returns the locals, the count \<open>matched\<close> and the row appended to \<open>results\<close>.\<close>

definition process_item :: "search_fn \<Rightarrow> video \<Rightarrow> locals \<Rightarrow> nat \<Rightarrow> locals \<times> nat \<times> row" where
  "process_item search it L matched =
     (case extract_artist_track (title it) of
        Inl e \<Rightarrow> (L, matched, error_row it L e)
      | Inr (artist, track) \<Rightarrow>
          (case query_loop search (py_iter (build_spotify_query artist track)) L of
             (L1, Some e) \<Rightarrow> (L1, matched, error_row it L1 e)
           | (L1, None) \<Rightarrow>
               (case l_result L1 of
                  None \<Rightarrow> (L1, matched, error_row it L1 (UnboundLocalError ''result''))
                | Some hits \<Rightarrow>
                    (let uri = (case hits of [] \<Rightarrow> PyNone | u # _ \<Rightarrow> PyStr u);
                         found = (uri \<noteq> PyNone);
                         matched1 = (if found then Suc matched else matched)
                     in case l_query L1 of
                          None \<Rightarrow> (L1, matched1, error_row it L1 (UnboundLocalError ''query''))
                        | Some q \<Rightarrow>
                            (L1, matched1,
                             \<lparr>item = it, spotify_uri = uri,
                              spotify_url = (if truthy uri then PyStr (uri_to_url (fmt uri)) else PyNone),
                              match_status = (if truthy uri then Check else Cross),
                              query_used = q\<rparr>)))))"

fun match_loop :: "search_fn \<Rightarrow> video list \<Rightarrow> locals \<Rightarrow> nat \<Rightarrow> row list \<Rightarrow> locals \<times> nat \<times> row list" where
  "match_loop search [] L matched results = (L, matched, results)"
| "match_loop search (it # its) L matched results =
     (case process_item search it L matched of
        (L1, matched1, r) \<Rightarrow> match_loop search its L1 matched1 (results @ [r]))"

text \<open>The summary printed after the loop divides \<open>matched\<close> by \<open>len(video_data)\<close>.\<close>

definition match_to_spotify :: "search_fn \<Rightarrow> video list \<Rightarrow> exn + (row list \<times> nat)" where
  "match_to_spotify search video_data =
     (case match_loop search video_data \<lparr>l_query = None, l_result = None, l_calls = 0\<rparr> 0 [] of
        (L, matched, results) \<Rightarrow>
          if length video_data = 0 then Inl ZeroDivisionError
          else Inr (results, matched))"


section \<open>\<open>read_spotify_tracks_from_csv\<close>\<close>

text \<open>The file is read as the list of its rows' \<open>spotify_url\<close> cells. A row whose cell
  starts with the track address gives one URI; any other row gives none.\<close>

definition url_to_uri :: "string \<Rightarrow> string option" where
  "url_to_uri u =
     (if startswith u ''https://open.spotify.com/track/''
      then Some (''spotify:track:'' @ split_last CHR ''/'' u) else None)"

definition read_spotify_tracks_from_csv :: "string list \<Rightarrow> string list" where
  "read_spotify_tracks_from_csv cells = List.map_filter url_to_uri cells"


section \<open>The brand suffix of an artist\<close>

text \<open>
  The documentation of \<open>build_spotify_query\<close> and the description of the query
  candidates speak of a trailing brand suffix: \<open>- topic\<close>, \<open>vevo\<close> or \<open>official\<close>, in any
  mix of upper and lower case, at the end of the artist. The two functions below say this
  without a pattern, to compare the pattern of the source with.

  A text is a brand suffix when, after any whitespace at its start, it reads \<open>vevo\<close> or
  \<open>official\<close>, or a hyphen, any whitespace and \<open>topic\<close>, with nothing before and nothing
  after, upper and lower case taken as the same.
\<close>

definition is_brand_suffix :: "string \<Rightarrow> bool" where
  "is_brand_suffix s \<longleftrightarrow>
     (let u = dropWhile is_space s
      in lower u = ''vevo'' \<or> lower u = ''official'' \<or>
         (case u of [] \<Rightarrow> False
          | c # v \<Rightarrow> c = CHR ''-'' \<and> lower (dropWhile is_space v) = ''topic''))"

text \<open>Stripping the brand suffix: the artist is cut at the first position from which the
  remaining text is a brand suffix, the whitespace before the suffix going with it. The end
  of the artist is, as for \<open>$\<close>, its end or the newline that ends it; that newline stays.\<close>

fun strip_brand_suffix :: "string \<Rightarrow> string" where
  "strip_brand_suffix [] = []"
| "strip_brand_suffix (c # cs) =
     (if is_brand_suffix (c # cs) then []
      else if last (c # cs) = CHR 0x0A \<and> is_brand_suffix (butlast (c # cs)) then [CHR 0x0A]
      else c # strip_brand_suffix cs)"

text \<open>The lengths of the texts at the start of \<open>s\<close> that are whitespace followed by one
  of the three suffixes, in the order of the pattern's alternatives.\<close>

definition brand_lengths :: "string \<Rightarrow> nat list" where
  "brand_lengths s =
     (let m = length (takeWhile is_space s); u = dropWhile is_space s
      in (case u of
            [] \<Rightarrow> []
          | c # v \<Rightarrow>
              if c = CHR ''-'' \<and> startswith (lower (dropWhile is_space v)) ''topic''
              then [m + 1 + length (takeWhile is_space v) + 5]
              else []) @
         (if startswith (lower u) ''vevo'' then [m + 4] else []) @
         (if startswith (lower u) ''official'' then [m + 8] else []))"


section \<open>Titles with nothing left to strip\<close>



section \<open>Example inputs\<close>

definition two_videos :: "video list" where
  "two_videos =
     [\<lparr>title = ''A - B'', video_id = ''v1'', url = ''https://youtu.be/v1'',
       channel = ''A'', position = 1\<rparr>,
      \<lparr>title = ''C - D'', video_id = ''v2'', url = ''https://youtu.be/v2'',
       channel = ''C'', position = 2\<rparr>]"

text \<open>A search that raises on the query \<open>The Band Song\<close> and has no hit for any other,
  and the function's locals before the first round of its loop.\<close>

definition failing_search :: search_fn where
  "failing_search n q = (if q = PyStr ''The Band Song'' then Inl ''timeout'' else Inr [])"

definition locals0 :: locals where
  "locals0 = \<lparr>l_query = None, l_result = None, l_calls = 0\<rparr>"


section \<open>Properties\<close>

subsection \<open>Evaluation\<close>

text \<open>The lowercase of a code point, read off its eight bits (lowest first): the
  capitals are the code points with bit 6 set and bit 5 clear whose low five bits are
  1..26 (A..Z) or, with bit 7 set, anything but 23 and 31 (192..214, 216..222); the
  lowercase sets bit 5. Evaluation uses this equation.\<close>

lemma lower_char_code [code]:
  "lower_char (Char b0 b1 b2 b3 b4 b5 b6 b7) =
     (if b6 \<and> \<not> b5 \<and>
         (if b7 then \<not> (b4 \<and> b2 \<and> b1 \<and> b0)
          else (b0 \<or> b1 \<or> b2 \<or> b3 \<or> b4) \<and> \<not> (b4 \<and> b3 \<and> (b2 \<or> (b1 \<and> b0))))
      then Char b0 b1 b2 b3 b4 True b6 b7
      else Char b0 b1 b2 b3 b4 b5 b6 b7)"
  by (cases b0; cases b1; cases b2; cases b3; cases b4; cases b5; cases b6; cases b7;
      simp add: lower_char_def char_of_eq_iff)

subsection \<open>The call in \<open>extract_artist_track\<close>\<close>

text \<open>No name of the module is spelled \<open>handle_special_casese\<close>, so the first statement
  of \<open>extract_artist_track\<close> raises \<open>NameError\<close> for every title, and every round of the
  loop of \<open>match_to_spotify\<close> goes through its \<open>except\<close> branch before any search.\<close>

lemma misspelled_name_unbound: "''handle_special_casese'' \<notin> set module_names"
  by (simp add: module_names_def)

lemma extract_artist_track_raises:
  "extract_artist_track t = Inl (NameError ''handle_special_casese'')"
  by (simp add: extract_artist_track_def module_functions_def)

lemma process_item_raises:
  "process_item search it L matched =
     (L, matched, error_row it L (NameError ''handle_special_casese''))"
  by (simp add: process_item_def extract_artist_track_raises)

lemma match_loop_rows:
  "match_loop search its L matched results =
     (L, matched, results @ map (\<lambda>it. error_row it L (NameError ''handle_special_casese'')) its)"
  by (induction its arbitrary: results) (simp_all add: process_item_raises)

lemma match_to_spotify_rows:
  "video_data \<noteq> [] \<Longrightarrow>
   match_to_spotify search video_data =
     Inr (map (\<lambda>it. \<lparr>item = it, spotify_uri = PyNone, spotify_url = PyNone,
                      match_status = Warning (NameError ''handle_special_casese''),
                      query_used = PyStr ''N/A''\<rparr>) video_data, 0)"
  by (simp add: match_to_spotify_def match_loop_rows error_row_def)

text \<open>Claim C1 says that \<open>extract_artist_track\<close> returns normally on every string, the
  empty one included, with a track that is not null. On the empty string the function
  raises \<open>NameError\<close>: it calls \<open>handle_special_casese\<close>, a name the module does not bind
  (it defines \<open>handle_special_cases\<close>).\<close>

theorem extract_artist_track_empty_title_raises:
  "extract_artist_track [] = Inl (NameError ''handle_special_casese'')"
  by (rule extract_artist_track_raises)

subsection \<open>The query builder\<close>

text \<open>Claim C3 says that \<open>build_spotify_query\<close> returns a sequence of query strings and,
  without an artist, the sequence of the one string \<open>track:<track>\<close>. Without an artist the
  function returns the string itself, not a list holding it: for the track \<open>Song\<close> the loop
  \<open>for query in queries\<close> of \<open>match_to_spotify\<close> gets ten queries of one character.\<close>

theorem no_artist_query_is_a_str:
  "build_spotify_query PyNone (PyStr ''Song'') = QStr ''track:Song'' \<and>
   py_iter (build_spotify_query PyNone (PyStr ''Song'')) =
     [PyStr ''t'', PyStr ''r'', PyStr ''a'', PyStr ''c'', PyStr ''k'', PyStr '':'',
      PyStr ''S'', PyStr ''o'', PyStr ''n'', PyStr ''g'']"
  by (simp add: build_spotify_query_def)

subsection \<open>The matching loop\<close>

text \<open>Claim C5 says that the resolver tries the candidates in order and stops at the first
  one with a hit; with no hit for the first two candidates and one hit for the third, the
  outcome is Matched and \<open>query_used\<close> is the third candidate. For the title
  \<open>Artist - Song\<close> and a search that has a hit for the query \<open>Song\<close> only, the code makes
  no search at all: the row is the one of the \<open>except\<close> branch, with the \<open>NameError\<close> of
  \<open>extract_artist_track\<close>, no URI, and \<open>N/A\<close> as the query.\<close>

theorem third_candidate_hit_is_not_matched:
  "match_to_spotify
     (\<lambda>n q. if q = PyStr ''Song'' then Inr [''spotify:track:6rqhFgbbKwnb9MLmUQDhG6''] else Inr [])
     [\<lparr>title = ''Artist - Song'', video_id = ''abc'', url = ''https://youtu.be/abc'',
       channel = ''Artist'', position = 1\<rparr>]
   = Inr ([\<lparr>item = \<lparr>title = ''Artist - Song'', video_id = ''abc'', url = ''https://youtu.be/abc'',
                     channel = ''Artist'', position = 1\<rparr>,
            spotify_uri = PyNone, spotify_url = PyNone,
            match_status = Warning (NameError ''handle_special_casese''),
            query_used = PyStr ''N/A''\<rparr>], 0)"
  by (simp add: match_to_spotify_rows)

text \<open>The loop over the candidates, when the search raises: if the candidates \<open>pre\<close> had
  no hit and the search raises on the next one, \<open>q\<close>, the loop ends with that exception,
  and the local \<open>query\<close> is bound to \<open>q\<close>.\<close>

lemma query_loop_search_raises:
  assumes "\<forall>j < length pre. search (l_calls L + j) (pre ! j) = Inr []"
    and "search (l_calls L + length pre) q = Inl msg"
  shows "query_loop search (pre @ q # post) L =
           (\<lparr>l_query = Some q,
             l_result = (if pre = [] then l_result L else Some []),
             l_calls = l_calls L + length pre + 1\<rparr>, Some (ClientError msg))"
  using assms
proof (induction pre arbitrary: L)
  case Nil
  then show ?case by simp
next
  case (Cons p pre)
  from Cons.prems(1) have p0: "search (l_calls L) p = Inr []"
    by (metis add.right_neutral length_greater_0_conv list.distinct(1) nth_Cons_0)
  let ?L2 = "L\<lparr>l_query := Some p, l_calls := Suc (l_calls L), l_result := Some []\<rparr>"
  from Cons.prems(1) have a: "\<forall>j < length pre. search (l_calls ?L2 + j) (pre ! j) = Inr []"
    by (auto dest: spec [of _ "Suc j" for j])
  from Cons.prems(2) have b: "search (l_calls ?L2 + length pre) q = Inl msg"
    by simp
  have step: "query_loop search ((p # pre) @ q # post) L = query_loop search (pre @ q # post) ?L2"
    using p0 by (simp add: Let_def)
  show ?case
    unfolding step Cons.IH [OF a b] by simp
qed

text \<open>The local \<open>query\<close> is unbound exactly as long as no search call has been made.\<close>

lemma query_loop_calls:
  "query_loop search qs L = (L', r) \<Longrightarrow>
   (l_query L = None \<longleftrightarrow> l_calls L = 0) \<Longrightarrow> (l_query L' = None \<longleftrightarrow> l_calls L' = 0)"
proof (induction qs arbitrary: L)
  case Nil
  then show ?case by simp
next
  case (Cons q qs)
  show ?case
  proof (cases "search (l_calls L) q")
    case (Inl msg)
    with Cons.prems show ?thesis by (auto simp: Let_def)
  next
    case (Inr hits)
    show ?thesis
    proof (cases "hits = []")
      case True
      with Inr Cons.prems(1) have
        "query_loop search qs (L\<lparr>l_query := Some q, l_calls := Suc (l_calls L), l_result := Some hits\<rparr>) = (L', r)"
        by (simp add: Let_def)
      from Cons.IH [OF this] show ?thesis by simp
    next
      case False
      with Inr Cons.prems show ?thesis by (auto simp: Let_def)
    qed
  qed
qed

text \<open>Claim C6: a failure stays with its item. First, for every batch and every item of
  it, the processing of the item raises (the \<open>NameError\<close> of \<open>extract_artist_track\<close>,
  before any search call), the item's row carries that exception as its status, no URI, and
  the sentinel \<open>N/A\<close> as the query; the function still returns, with one row for each item
  of the batch, the later ones included. Second, whatever the function's locals hold when a
  round of the loop starts, the round leaves them and the count as they are, and its row
  has as its query the local \<open>query\<close> if it is bound and \<open>N/A\<close> if it is not. Third, when
  the search raises on a candidate after the candidates before it had no hit, the loop
  over the candidates ends with that exception, and the row that the \<open>except\<close> branch
  builds from there carries the exception as its status, no URI, and that candidate, the
  one in flight, as its query.\<close>

theorem per_item_failures_isolated:
  "(i < length video_data \<longrightarrow>
      (\<exists>results matched.
         match_to_spotify search video_data = Inr (results, matched) \<and>
         length results = length video_data \<and>
         extract_artist_track (title (video_data ! i)) = Inl (NameError ''handle_special_casese'') \<and>
         results ! i =
           \<lparr>item = video_data ! i, spotify_uri = PyNone, spotify_url = PyNone,
            match_status = Warning (NameError ''handle_special_casese''),
            query_used = PyStr ''N/A''\<rparr>)) \<and>
   process_item search it L matched =
     (L, matched,
      \<lparr>item = it, spotify_uri = PyNone, spotify_url = PyNone,
       match_status = Warning (NameError ''handle_special_casese''),
       query_used = (case l_query L of None \<Rightarrow> PyStr ''N/A'' | Some q' \<Rightarrow> q')\<rparr>) \<and>
   ((\<forall>j < length pre. search (l_calls L + j) (pre ! j) = Inr []) \<and>
    search (l_calls L + length pre) q = Inl msg \<longrightarrow>
      (\<exists>L'. query_loop search (pre @ q # post) L = (L', Some (ClientError msg)) \<and>
            l_calls L' = l_calls L + length pre + 1 \<and>
            error_row it L' (ClientError msg) =
              \<lparr>item = it, spotify_uri = PyNone, spotify_url = PyNone,
               match_status = Warning (ClientError msg), query_used = q\<rparr>))"
proof (intro conjI impI)
  assume i: "i < length video_data"
  then have ne: "video_data \<noteq> []" by auto
  show "\<exists>results matched.
         match_to_spotify search video_data = Inr (results, matched) \<and>
         length results = length video_data \<and>
         extract_artist_track (title (video_data ! i)) = Inl (NameError ''handle_special_casese'') \<and>
         results ! i =
           \<lparr>item = video_data ! i, spotify_uri = PyNone, spotify_url = PyNone,
            match_status = Warning (NameError ''handle_special_casese''),
            query_used = PyStr ''N/A''\<rparr>"
    using i by (simp add: match_to_spotify_rows [OF ne] extract_artist_track_raises)
next
  show "process_item search it L matched =
     (L, matched,
      \<lparr>item = it, spotify_uri = PyNone, spotify_url = PyNone,
       match_status = Warning (NameError ''handle_special_casese''),
       query_used = (case l_query L of None \<Rightarrow> PyStr ''N/A'' | Some q' \<Rightarrow> q')\<rparr>)"
    by (simp add: process_item_raises error_row_def)
next
  assume h: "(\<forall>j < length pre. search (l_calls L + j) (pre ! j) = Inr []) \<and>
    search (l_calls L + length pre) q = Inl msg"
  then have a: "\<forall>j < length pre. search (l_calls L + j) (pre ! j) = Inr []"
    and b: "search (l_calls L + length pre) q = Inl msg" by simp_all
  show "\<exists>L'. query_loop search (pre @ q # post) L = (L', Some (ClientError msg)) \<and>
            l_calls L' = l_calls L + length pre + 1 \<and>
            error_row it L' (ClientError msg) =
              \<lparr>item = it, spotify_uri = PyNone, spotify_url = PyNone,
               match_status = Warning (ClientError msg), query_used = q\<rparr>"
    by (simp add: query_loop_search_raises [OF a b] error_row_def)
qed


theorem per_item_failures_isolated_witness:
  "(1::nat) < length two_videos \<and>
   failing_search 0 (PyStr ''artist:The Band track:Song'') = Inr [] \<and>
   failing_search 1 (PyStr ''The Band Song'') = Inl ''timeout'' \<and>
   (\<exists>results matched.
      match_to_spotify failing_search two_videos = Inr (results, matched) \<and>
      length results = length two_videos \<and>
      results ! 1 =
        \<lparr>item = two_videos ! 1, spotify_uri = PyNone, spotify_url = PyNone,
         match_status = Warning (NameError ''handle_special_casese''),
         query_used = PyStr ''N/A''\<rparr>) \<and>
   (\<exists>L'. query_loop failing_search
           [PyStr ''artist:The Band track:Song'', PyStr ''The Band Song'', PyStr ''Song''] locals0 =
             (L', Some (ClientError ''timeout'')) \<and>
         l_calls L' = 2 \<and>
         error_row (two_videos ! 0) L' (ClientError ''timeout'') =
           \<lparr>item = two_videos ! 0, spotify_uri = PyNone, spotify_url = PyNone,
            match_status = Warning (ClientError ''timeout''), query_used = PyStr ''The Band Song''\<rparr>)"
proof -
  have len: "(1::nat) < length two_videos"
    by (simp add: two_videos_def)
  have empty: "\<forall>j < length [PyStr ''artist:The Band track:Song''].
      failing_search (l_calls locals0 + j) ([PyStr ''artist:The Band track:Song''] ! j) = Inr []"
    by (simp add: failing_search_def)
  have raises: "failing_search (l_calls locals0 + length [PyStr ''artist:The Band track:Song''])
     (PyStr ''The Band Song'') = Inl ''timeout''"
    by (simp add: failing_search_def)
  note inst = per_item_failures_isolated [of 1 two_videos failing_search "two_videos ! 0" locals0 0
      "[PyStr ''artist:The Band track:Song'']" "PyStr ''The Band Song''" "''timeout''" "[PyStr ''Song'']"]
  from inst len have a: "\<exists>results matched.
      match_to_spotify failing_search two_videos = Inr (results, matched) \<and>
      length results = length two_videos \<and>
      results ! 1 =
        \<lparr>item = two_videos ! 1, spotify_uri = PyNone, spotify_url = PyNone,
         match_status = Warning (NameError ''handle_special_casese''),
         query_used = PyStr ''N/A''\<rparr>"
    by blast
  from inst empty raises have b: "\<exists>L'. query_loop failing_search
           ([PyStr ''artist:The Band track:Song''] @ PyStr ''The Band Song'' # [PyStr ''Song'']) locals0 =
             (L', Some (ClientError ''timeout'')) \<and>
         l_calls L' = l_calls locals0 + length [PyStr ''artist:The Band track:Song''] + 1 \<and>
         error_row (two_videos ! 0) L' (ClientError ''timeout'') =
           \<lparr>item = two_videos ! 0, spotify_uri = PyNone, spotify_url = PyNone,
            match_status = Warning (ClientError ''timeout''), query_used = PyStr ''The Band Song''\<rparr>"
    by blast
  have c: "l_calls locals0 + length [PyStr ''artist:The Band track:Song''] + 1 = 2"
    by (simp add: locals0_def)
  from b have b': "\<exists>L'. query_loop failing_search
           [PyStr ''artist:The Band track:Song'', PyStr ''The Band Song'', PyStr ''Song''] locals0 =
             (L', Some (ClientError ''timeout'')) \<and>
         l_calls L' = 2 \<and>
         error_row (two_videos ! 0) L' (ClientError ''timeout'') =
           \<lparr>item = two_videos ! 0, spotify_uri = PyNone, spotify_url = PyNone,
            match_status = Warning (ClientError ''timeout''), query_used = PyStr ''The Band Song''\<rparr>"
    unfolding c by simp
  have first: "failing_search 0 (PyStr ''artist:The Band track:Song'') = Inr []"
    by (simp add: failing_search_def)
  have second: "failing_search 1 (PyStr ''The Band Song'') = Inl ''timeout''"
    by (simp add: failing_search_def)
  from len first second a b' show ?thesis
    by (intro conjI)
qed

text \<open>Claim C7 says that for every batch the results have one outcome for each item, in
  the items' order, and a matched count equal to the number of outcomes with a URI. For
  the empty batch the function returns no results: the summary it prints divides by
  \<open>len(video_data)\<close> and raises \<open>ZeroDivisionError\<close>.\<close>

theorem match_to_spotify_empty_batch_raises:
  "match_to_spotify search [] = Inl ZeroDivisionError"
  by (simp add: match_to_spotify_def)

text \<open>For a batch that is not empty the three properties hold: one row for each item, in
  order, and no row with a URI, which is the count returned.\<close>

lemma match_to_spotify_counts:
  assumes "video_data \<noteq> []"
  shows "\<exists>results matched.
           match_to_spotify search video_data = Inr (results, matched) \<and>
           map item results = video_data \<and>
           matched = length (filter (\<lambda>r. spotify_uri r \<noteq> PyNone) results)"
  by (simp add: match_to_spotify_rows [OF assms] comp_def)


subsection \<open>Catalog URIs and browsable addresses\<close>

lemma split_last_after: "sep \<notin> set s \<Longrightarrow> split_last sep (pre @ sep # s) = s"
proof -
  assume a: "sep \<notin> set s"
  have "takeWhile (\<lambda>c. c \<noteq> sep) (rev s @ sep # rev pre) = takeWhile (\<lambda>c. c \<noteq> sep) (rev s)"
    by (rule takeWhile_tail) simp
  also have "\<dots> = rev s"
    using a by auto
  finally show ?thesis
    by (simp add: split_last_def)
qed

lemma uri_to_url_plain:
  assumes "CHR '':'' \<notin> set ident"
  shows "uri_to_url (''spotify:track:'' @ ident) = ''https://open.spotify.com/track/'' @ ident"
  using split_last_after [OF assms, of "''spotify:track''"]
  by (simp add: uri_to_url_def)

lemma url_to_uri_plain:
  assumes "CHR ''/'' \<notin> set ident"
  shows "url_to_uri (''https://open.spotify.com/track/'' @ ident) = Some (''spotify:track:'' @ ident)"
  using split_last_after [OF assms, of "''https://open.spotify.com/track''"]
  by (simp add: url_to_uri_def startswith_def)

text \<open>Claim C9, amended: for every id that contains neither a colon nor a slash, the URI
  \<open>spotify:track:<id>\<close> turned into its address (as \<open>match_to_spotify\<close> does) and back
  (as \<open>read_spotify_tracks_from_csv\<close> does) is the URI again, and the address
  \<open>https://open.spotify.com/track/<id>\<close> turned into its URI and back is the address
  again.\<close>

theorem uri_url_roundtrip:
  assumes "CHR '':'' \<notin> set ident" and "CHR ''/'' \<notin> set ident"
  shows "url_to_uri (uri_to_url (''spotify:track:'' @ ident)) = Some (''spotify:track:'' @ ident) \<and>
         map_option uri_to_url (url_to_uri (''https://open.spotify.com/track/'' @ ident)) =
           Some (''https://open.spotify.com/track/'' @ ident) \<and>
         read_spotify_tracks_from_csv [uri_to_url (''spotify:track:'' @ ident)] =
           [''spotify:track:'' @ ident]"
proof -
  have a: "uri_to_url (''spotify:track:'' @ ident) = ''https://open.spotify.com/track/'' @ ident"
    by (rule uri_to_url_plain [OF assms(1)])
  have b: "url_to_uri (''https://open.spotify.com/track/'' @ ident) = Some (''spotify:track:'' @ ident)"
    by (rule url_to_uri_plain [OF assms(2)])
  have c1: "url_to_uri (uri_to_url (''spotify:track:'' @ ident)) = Some (''spotify:track:'' @ ident)"
    by (simp only: a b)
  have c2: "map_option uri_to_url (url_to_uri (''https://open.spotify.com/track/'' @ ident)) =
           Some (''https://open.spotify.com/track/'' @ ident)"
    by (simp only: a b option.map)
  have c3: "read_spotify_tracks_from_csv [uri_to_url (''spotify:track:'' @ ident)] =
           [''spotify:track:'' @ ident]"
    by (simp only: read_spotify_tracks_from_csv_def a b List.map_filter_simps option.case)
  from c1 c2 c3 show ?thesis by (intro conjI)
qed

theorem uri_url_roundtrip_witness:
  "CHR '':'' \<notin> set ''6rqhFgbbKwnb9MLmUQDhG6'' \<and> CHR ''/'' \<notin> set ''6rqhFgbbKwnb9MLmUQDhG6'' \<and>
   url_to_uri (uri_to_url ''spotify:track:6rqhFgbbKwnb9MLmUQDhG6'') =
     Some ''spotify:track:6rqhFgbbKwnb9MLmUQDhG6'' \<and>
   map_option uri_to_url (url_to_uri ''https://open.spotify.com/track/6rqhFgbbKwnb9MLmUQDhG6'') =
     Some ''https://open.spotify.com/track/6rqhFgbbKwnb9MLmUQDhG6''"
  using uri_url_roundtrip [of "''6rqhFgbbKwnb9MLmUQDhG6''"] by simp

text \<open>Claim C9 as stated, for every id, fails for an id with a colon: the address keeps
  only what follows the last colon of the URI.\<close>

theorem uri_with_colon_in_id_not_restored:
  "url_to_uri (uri_to_url ''spotify:track:a:b'') = Some ''spotify:track:b''"
  by (simp add: uri_to_url_def url_to_uri_def split_last_def startswith_def)

subsection \<open>The special cases\<close>

text \<open>Claim C10 says that for a title with a parenthesized span that ends in the word
  cover, the detector returns the text in the parentheses without that word as the artist
  and the title without the span as the track. The search for the span ignores case, the
  substitution that removes it does not: for \<open>Jane Doe (John Smith Cover)\<close> the artist is
  found and the span stays in the track.\<close>

theorem cover_span_kept_when_capitalised:
  "handle_special_cases ''Jane Doe (John Smith Cover)'' =
     (PyStr ''John Smith'', PyStr ''Jane Doe (John Smith Cover)'')"
  by code_simp

text \<open>With the word in lower case the span is removed, as in the spec's example.\<close>

lemma cover_scenario:
  "handle_special_cases ''Jane Doe (John Smith cover)'' = (PyStr ''John Smith'', PyStr ''Jane Doe'')"
  by code_simp


text \<open>Claim C2 says that a special-case result with a track and no artist is returned at
  once, without normalization or patterns, and that \<open>VARIOUS ARTISTS - Summer Mix 2023\<close>
  extracts to no artist and the track \<open>VARIOUS ARTISTS\<close>. For that title the detector
  does return a track and no artist (the whole title: its first rule keeps the text before
  the first \<open>|\<close>), and \<open>extract_artist_track\<close> returns neither that pair nor any other:
  it raises the \<open>NameError\<close> of its first statement.\<close>

theorem mix_title_special_case_not_returned:
  "handle_special_cases ''VARIOUS ARTISTS - Summer Mix 2023'' =
     (PyNone, PyStr ''VARIOUS ARTISTS - Summer Mix 2023'') \<and>
   extract_artist_track ''VARIOUS ARTISTS - Summer Mix 2023'' =
     Inl (NameError ''handle_special_casese'')"
proof -
  have a: "handle_special_cases ''VARIOUS ARTISTS - Summer Mix 2023'' =
     (PyNone, PyStr ''VARIOUS ARTISTS - Summer Mix 2023'')"
    by code_simp
  have b: "extract_artist_track ''VARIOUS ARTISTS - Summer Mix 2023'' =
     Inl (NameError ''handle_special_casese'')"
    by (rule extract_artist_track_raises)
  from a b show ?thesis by (rule conjI)
qed

text \<open>The statement after that call, \<open>if artist is not None\<close>, tests the artist and not
  the track: handed the detector's pair for this title, the rest of the function drops it,
  normalizes the title and lets the patterns split it.\<close>

lemma mix_title_after_the_call:
  "extract_rest (PyNone, PyStr ''VARIOUS ARTISTS - Summer Mix 2023'')
     ''VARIOUS ARTISTS - Summer Mix 2023'' =
     Inr (PyStr ''VARIOUS ARTISTS'', PyStr ''Summer Mix 2023'')"
  by code_simp

text \<open>The first rule of the detector: the text before the first \<open>|\<close>, stripped.\<close>

lemma mix_rule:
  assumes "\<exists>x \<in> set [''math rock'', ''midwest emo'', ''mix'', ''playlist'']. contains (lower raw) x"
  shows "handle_special_cases raw = (PyNone, PyStr (strip (split_first CHR ''|'' raw)))"
  using assms unfolding handle_special_cases_def by (simp only: if_True)

subsection \<open>The matcher on literals and whitespace\<close>

lemma advance_simps [simp]:
  "rest (advance k st) = drop k (rest st)"
  "pos (advance k st) = pos st + k"
  "groups (advance k st) = groups st"
  by (simp_all add: advance_def)

lemma advance_0 [simp]: "advance 0 st = st"
  by (simp add: advance_def)

lemma advance_advance [simp]: "advance k (advance j st) = advance (j + k) st"
  by (simp add: advance_def add.assoc add.commute)

lemma atom_ok_ws [simp]: "atom_ok ic ws = is_space"
  by (rule ext) simp

lemma is_space_lower_char: "is_space c \<Longrightarrow> lower_char c = c"
  by (auto simp: is_space_def lower_char_def)

lemma lower_char_hyphen [simp]: "lower_char c = CHR ''-'' \<longleftrightarrow> c = CHR ''-''"
  by (cases c) (auto simp: lower_char_code split: if_splits)

lemma re_m_lits:
  "re_m True (lits w) st =
     (if startswith (lower (rest st)) (lower w) then [advance (length w) st] else [])"
proof (induction w arbitrary: st)
  case Nil
  then show ?case by (simp add: lits_def startswith_def lower_def)
next
  case (Cons c w)
  have l: "lits (c # w) = Seq (A (Lit c)) (lits w)"
    by (simp add: lits_def)
  show ?case
  proof (cases "rest st")
    case Nil
    then show ?thesis by (simp add: l startswith_def lower_def)
  next
    case (Cons x xs)
    then show ?thesis
      by (simp add: l Cons.IH startswith_def lower_def)
  qed
qed

lemma concat_map_empty: "(\<And>x. x \<in> set xs \<Longrightarrow> f x = []) \<Longrightarrow> concat (map f xs) = []"
  by (induction xs) simp_all

lemma takeWhile_nth_holds: "k < length (takeWhile P xs) \<Longrightarrow> P (xs ! k)"
  by (metis nth_mem set_takeWhileD takeWhile_nth)

lemma re_m_star_ws_seq:
  assumes "\<And>st'. rest st' \<noteq> [] \<Longrightarrow> is_space (hd (rest st')) \<Longrightarrow> re_m ic r st' = []"
  shows "re_m ic (Seq (star ws) r) st =
           re_m ic r (advance (length (takeWhile is_space (rest st))) st)"
proof -
  let ?m = "length (takeWhile is_space (rest st))"
  have early: "re_m ic r (advance k st) = []" if "k \<in> set (rev [0..<?m])" for k
  proof -
    from that have k: "k < ?m" by simp
    then have len: "k < length (rest st)"
      using length_takeWhile_le [of is_space "rest st"] by simp
    from k have "is_space (rest st ! k)" by (rule takeWhile_nth_holds)
    with len show ?thesis
      by (intro assms) (simp_all add: hd_drop_conv_nth)
  qed
  have "re_m ic (Seq (star ws) r) st =
          re_m ic r (advance ?m st) @
            concat (map (\<lambda>k. re_m ic r (advance k st)) (rev [0..<?m]))"
    by (simp add: Let_def comp_def)
  also have "concat (map (\<lambda>k. re_m ic r (advance k st)) (rev [0..<?m])) = []"
    by (rule concat_map_empty) (rule early)
  finally show ?thesis by simp
qed

lemma re_m_seq_eps [simp]: "re_m ic (Seq r Eps) st = re_m ic r st"
proof -
  have "re_m ic Eps = (\<lambda>x. [x])" by (rule ext) simp
  then show ?thesis by simp
qed

lemma lower_char_of_hyphen [simp]: "lower_char CHR ''-'' = CHR ''-''"
  by code_simp

lemma lits_no_space_start:
  assumes "w \<noteq> []" and "\<not> is_space (lower_char (hd w))"
    and "rest st \<noteq> []" and "is_space (hd (rest st))"
  shows "re_m True (lits w) st = []"
proof -
  from assms(1) obtain c w' where w: "w = c # w'" by (cases w) auto
  from assms(3) obtain x xs where r: "rest st = x # xs" by (cases "rest st") auto
  from assms(4) r have "lower_char x = x" and "is_space x"
    by (simp_all add: is_space_lower_char)
  with assms(2) w have "lower_char x \<noteq> lower_char c" by auto
  then show ?thesis
    by (simp add: re_m_lits w r startswith_def lower_def)
qed

lemma re_m_ws_lits:
  assumes "w \<noteq> []" and "\<not> is_space (lower_char (hd w))"
  shows "re_m True (Seq (star ws) (Seq (lits w) Eps)) st =
           (if startswith (lower (dropWhile is_space (rest st))) (lower w)
            then [advance (length (takeWhile is_space (rest st)) + length w) st] else [])"
proof -
  have "re_m True (Seq (star ws) (Seq (lits w) Eps)) st =
          re_m True (Seq (lits w) Eps) (advance (length (takeWhile is_space (rest st))) st)"
    by (rule re_m_star_ws_seq) (simp add: lits_no_space_start [OF assms] del: re_m.simps)
  then show ?thesis
    by (simp add: re_m_lits dropWhile_eq_drop del: re_m.simps)
qed

text \<open>After a match of \<open>n\<close> code points, the substitution goes on behind them.\<close>

lemma sub_from_skip:
  "skip \<le> length s \<Longrightarrow>
   sub_from ic r repl p skip s = sub_from ic r repl (p + skip) 0 (drop skip s)"
proof (induction s arbitrary: p skip)
  case Nil
  then show ?case by simp
next
  case (Cons c cs)
  show ?case
  proof (cases skip)
    case 0
    then show ?thesis by simp
  next
    case (Suc n)
    with Cons.prems have "n \<le> length cs" by simp
    from Cons.IH [OF this, of "Suc p"] Suc show ?thesis by simp
  qed
qed

subsection \<open>The three candidates\<close>

text \<open>The three alternatives of the pattern \<open>(\s*-\s*topic|\s*vevo|\s*official)$\<close>.\<close>

lemma re_m_hyphen_topic:
  "re_m True (seqs [star ws, A (Lit CHR ''-''), star ws, lits ''topic'']) st =
     (case dropWhile is_space (rest st) of
        [] \<Rightarrow> []
      | c # v \<Rightarrow>
          if c = CHR ''-'' \<and> startswith (lower (dropWhile is_space v)) ''topic''
          then [advance (length (takeWhile is_space (rest st)) + 1 + length (takeWhile is_space v) + 5) st]
          else [])"
proof -
  let ?r = "Seq (A (Lit CHR ''-'')) (Seq (star ws) (Seq (lits ''topic'') Eps))"
  let ?m = "length (takeWhile is_space (rest st))"
  have nospace: "re_m True ?r st' = []" if "rest st' \<noteq> []" "is_space (hd (rest st'))" for st'
  proof -
    from that obtain x xs where r: "rest st' = x # xs" and x: "is_space x"
      by (cases "rest st'") auto
    from x have "x \<noteq> CHR ''-''" by (auto simp: is_space_def)
    with r show ?thesis by simp
  qed
  have "re_m True (seqs [star ws, A (Lit CHR ''-''), star ws, lits ''topic'']) st =
          re_m True (Seq (star ws) ?r) st"
    by (simp only: seqs_def foldr.simps o_apply id_apply)
  also have "\<dots> = re_m True ?r (advance ?m st)"
    by (rule re_m_star_ws_seq) (rule nospace)
  also have "\<dots> =
     (case dropWhile is_space (rest st) of
        [] \<Rightarrow> []
      | c # v \<Rightarrow>
          if c = CHR ''-'' \<and> startswith (lower (dropWhile is_space v)) ''topic''
          then [advance (?m + 1 + length (takeWhile is_space v) + 5) st]
          else [])"
  proof (cases "dropWhile is_space (rest st)")
    case Nil
    then show ?thesis by (simp add: dropWhile_eq_drop)
  next
    case (Cons c v)
    have lt: "lower ''topic'' = ''topic''" by code_simp
    have t: "re_m True (Seq (star ws) (Seq (lits ''topic'') Eps)) st2 =
           (if startswith (lower (dropWhile is_space (rest st2))) ''topic''
            then [advance (length (takeWhile is_space (rest st2)) + 5) st2] else [])" for st2
      using re_m_ws_lits [of "''topic''" st2] lt
      by (simp add: is_space_def lower_char_def eval_nat_numeral del: re_m.simps re_m_seq_eps)
    from Cons have d: "drop ?m (rest st) = c # v"
      by (simp add: dropWhile_eq_drop)
    then have v: "drop (Suc ?m) (rest st) = v"
      by (metis drop_Suc tl_drop list.sel(3))
    have "re_m True ?r (advance ?m st) =
            (if c = CHR ''-'' then re_m True (Seq (star ws) (Seq (lits ''topic'') Eps)) (advance (Suc ?m) st)
             else [])"
      by (simp add: d del: re_m.simps(8))
    then show ?thesis
      by (simp add: Cons v t add.assoc eval_nat_numeral del: re_m.simps)
  qed
  finally show ?thesis .
qed


lemma re_m_ws_vevo:
  "re_m True (seqs [star ws, lits ''vevo'']) st =
     (if startswith (lower (dropWhile is_space (rest st))) ''vevo''
      then [advance (length (takeWhile is_space (rest st)) + 4) st] else [])"
proof -
  have l: "lower ''vevo'' = ''vevo''" by code_simp
  have "seqs [star ws, lits ''vevo''] = Seq (star ws) (Seq (lits ''vevo'') Eps)"
    by (simp only: seqs_def foldr.simps o_apply id_apply)
  then show ?thesis
    using re_m_ws_lits [of "''vevo''" st] l
    by (simp add: is_space_def lower_char_def eval_nat_numeral del: re_m.simps re_m_seq_eps)
qed

lemma re_m_ws_official:
  "re_m True (seqs [star ws, lits ''official'']) st =
     (if startswith (lower (dropWhile is_space (rest st))) ''official''
      then [advance (length (takeWhile is_space (rest st)) + 8) st] else [])"
proof -
  have l: "lower ''official'' = ''official''" by code_simp
  have "seqs [star ws, lits ''official''] = Seq (star ws) (Seq (lits ''official'') Eps)"
    by (simp only: seqs_def foldr.simps o_apply id_apply)
  then show ?thesis
    using re_m_ws_lits [of "''official''" st] l
    by (simp add: is_space_def lower_char_def eval_nat_numeral del: re_m.simps re_m_seq_eps)
qed

lemma re_artist_suffix_unfold:
  "re_artist_suffix =
     Seq (Grp 1 (Alt (seqs [star ws, A (Lit CHR ''-''), star ws, lits ''topic''])
                (Alt (seqs [star ws, lits ''vevo'']) (seqs [star ws, lits ''official'']))))
         (Seq Eol Eps)"
  by (simp add: re_artist_suffix_def seqs_def)

lemma map_case_if:
  "map f (case xs of [] \<Rightarrow> [] | c # v \<Rightarrow> if P c v then [g c v] else []) =
     (case xs of [] \<Rightarrow> [] | c # v \<Rightarrow> if P c v then [f (g c v)] else [])"
  by (cases xs) simp_all

lemma grp_eol_pos:
  "map pos (concat (map (re_m ic (Seq Eol Eps))
      (map (\<lambda>st'. st'\<lparr>groups := (i, take (pos st' - pos st) (rest st)) # groups st'\<rparr>)
         (map (\<lambda>k. advance k st) ks)))) =
   map (\<lambda>k. pos st + k)
     (filter (\<lambda>k. drop k (rest st) = [] \<or> drop k (rest st) = [CHR 0x0A]) ks)"
  by (induction ks) simp_all

text \<open>The lengths of the texts that the three alternatives of the pattern match at the
  start of \<open>s\<close>.\<close>

lemma re_m_artist_suffix_pos:
  "map pos (re_m True re_artist_suffix st) =
     map (\<lambda>k. pos st + k)
       (filter (\<lambda>k. drop k (rest st) = [] \<or> drop k (rest st) = [CHR 0x0A])
          (brand_lengths (rest st)))"
proof -
  let ?KT = "case dropWhile is_space (rest st) of
              [] \<Rightarrow> []
            | c # v \<Rightarrow>
                if c = CHR ''-'' \<and> startswith (lower (dropWhile is_space v)) ''topic''
                then [length (takeWhile is_space (rest st)) + 1 + length (takeWhile is_space v) + 5]
                else []"
  let ?KV = "if startswith (lower (dropWhile is_space (rest st))) ''vevo''
            then [length (takeWhile is_space (rest st)) + 4] else []"
  let ?KO = "if startswith (lower (dropWhile is_space (rest st))) ''official''
            then [length (takeWhile is_space (rest st)) + 8] else []"
  have K: "brand_lengths (rest st) = ?KT @ ?KV @ ?KO"
    by (simp only: brand_lengths_def Let_def)
  have t: "re_m True (seqs [star ws, A (Lit CHR ''-''), star ws, lits ''topic'']) st =
             map (\<lambda>k. advance k st) ?KT"
    by (simp only: re_m_hyphen_topic map_case_if)
  have v: "re_m True (seqs [star ws, lits ''vevo'']) st = map (\<lambda>k. advance k st) ?KV"
    by (simp add: re_m_ws_vevo)
  have o: "re_m True (seqs [star ws, lits ''official'']) st = map (\<lambda>k. advance k st) ?KO"
    by (simp add: re_m_ws_official)
  have "re_m True re_artist_suffix st =
          concat (map (re_m True (Seq Eol Eps))
            (map (\<lambda>st'. st'\<lparr>groups := (1, take (pos st' - pos st) (rest st)) # groups st'\<rparr>)
               (map (\<lambda>k. advance k st) (?KT @ ?KV @ ?KO))))"
    unfolding re_artist_suffix_unfold
    by (simp only: re_m.simps(5,6,9) t v o map_append)
  then show ?thesis
    by (simp only: grp_eol_pos K)
qed

lemma match_len_artist_suffix_lengths:
  "match_len True re_artist_suffix p s =
     (case filter (\<lambda>k. drop k s = [] \<or> drop k s = [CHR 0x0A]) (brand_lengths s) of
        [] \<Rightarrow> None | k # _ \<Rightarrow> Some k)"
proof -
  let ?st = "\<lparr>rest = s, pos = p, groups = []\<rparr>"
  let ?V = "filter (\<lambda>k. drop k s = [] \<or> drop k s = [CHR 0x0A]) (brand_lengths s)"
  have "map pos (re_m True re_artist_suffix ?st) = map (\<lambda>k. p + k) ?V"
    using re_m_artist_suffix_pos [of ?st] by simp
  then show ?thesis
    by (cases "re_m True re_artist_suffix ?st"; cases ?V) (simp_all add: match_len_def)
qed

lemma startswith_all: "startswith (lower x) w \<and> drop (length w) x = [] \<longleftrightarrow> lower x = w"
  by (auto simp: startswith_def lower_def)

lemma startswith_length: "startswith x w \<Longrightarrow> length w \<le> length x"
  by (metis startswith_def length_take min.cobounded1)

lemma length_lower [simp]: "length (lower x) = length x"
  by (simp add: lower_def)

lemma split_space: "takeWhile is_space x @ dropWhile is_space x = x"
  by simp

lemma length_split_space:
  "length x = length (takeWhile is_space x) + length (dropWhile is_space x)"
  by (metis length_append takeWhile_dropWhile_id)

lemma drop_past_space:
  "drop (length (takeWhile is_space x) + j) x = drop j (dropWhile is_space x)"
  by (metis dropWhile_eq_drop drop_drop add.commute)

lemma brand_lengths_cases:
  assumes "k \<in> set (brand_lengths x)"
  obtains
    (T) v where "dropWhile is_space x = CHR ''-'' # v"
      "startswith (lower (dropWhile is_space v)) ''topic''"
      "k = length (takeWhile is_space x) + 1 + length (takeWhile is_space v) + 5"
  | (V) "startswith (lower (dropWhile is_space x)) ''vevo''"
      "k = length (takeWhile is_space x) + 4"
  | (O) "startswith (lower (dropWhile is_space x)) ''official''"
      "k = length (takeWhile is_space x) + 8"
proof -
  let ?u = "dropWhile is_space x"
  let ?m = "length (takeWhile is_space x)"
  from assms have
    "k \<in> set (case ?u of [] \<Rightarrow> []
                | c # v \<Rightarrow> if c = CHR ''-'' \<and> startswith (lower (dropWhile is_space v)) ''topic''
                            then [?m + 1 + length (takeWhile is_space v) + 5] else []) \<or>
     k \<in> set (if startswith (lower ?u) ''vevo'' then [?m + 4] else []) \<or>
     k \<in> set (if startswith (lower ?u) ''official'' then [?m + 8] else [])"
    by (simp only: brand_lengths_def Let_def set_append Un_iff)
  then consider
      (a) "k \<in> set (case ?u of [] \<Rightarrow> []
                | c # v \<Rightarrow> if c = CHR ''-'' \<and> startswith (lower (dropWhile is_space v)) ''topic''
                            then [?m + 1 + length (takeWhile is_space v) + 5] else [])"
    | (b) "k \<in> set (if startswith (lower ?u) ''vevo'' then [?m + 4] else [])"
    | (c) "k \<in> set (if startswith (lower ?u) ''official'' then [?m + 8] else [])"
    by blast
  then show thesis
  proof cases
    case a
    show thesis
    proof (cases ?u)
      case Nil
      with a show thesis by simp
    next
      case (Cons c v)
      with a have "c = CHR ''-''" "startswith (lower (dropWhile is_space v)) ''topic''"
        "k = ?m + 1 + length (takeWhile is_space v) + 5"
        by (simp_all split: if_splits)
      with Cons show thesis by (intro T [of v]) simp_all
    qed
  next
    case b
    then show thesis by (intro V) (simp_all split: if_splits)
  next
    case c
    then show thesis by (intro O) (simp_all split: if_splits)
  qed
qed

lemma brand_lengths_bound: "k \<in> set (brand_lengths x) \<Longrightarrow> k \<le> length x"
proof -
  assume k: "k \<in> set (brand_lengths x)"
  let ?u = "dropWhile is_space x"
  let ?m = "length (takeWhile is_space x)"
  from k show ?thesis
  proof (cases rule: brand_lengths_cases)
    case (T v)
    from T(2) have "5 \<le> length (dropWhile is_space v)"
      using startswith_length [of "lower (dropWhile is_space v)" "''topic''"] by simp
    then have "length (takeWhile is_space v) + 5 \<le> length v"
      using length_split_space [of v] by simp
    with T(1,3) show ?thesis
      using length_split_space [of x] by simp
  next
    case V
    from V(1) have "4 \<le> length ?u"
      using startswith_length [of "lower ?u" "''vevo''"] by simp
    with V(2) show ?thesis using length_split_space [of x] by simp
  next
    case O
    from O(1) have "8 \<le> length ?u"
      using startswith_length [of "lower ?u" "''official''"] by simp
    with O(2) show ?thesis using length_split_space [of x] by simp
  qed
qed

lemma brand_lengths_full:
  "(\<exists>k \<in> set (brand_lengths x). drop k x = []) \<longleftrightarrow> is_brand_suffix x"
proof -
  let ?u = "dropWhile is_space x"
  let ?m = "length (takeWhile is_space x)"
  have v: "startswith (lower ?u) ''vevo'' \<and> drop (?m + 4) x = [] \<longleftrightarrow> lower ?u = ''vevo''"
    using startswith_all [of ?u "''vevo''"] length_split_space [of x] by (auto simp: eval_nat_numeral)
  have o: "startswith (lower ?u) ''official'' \<and> drop (?m + 8) x = [] \<longleftrightarrow> lower ?u = ''official''"
    using startswith_all [of ?u "''official''"] length_split_space [of x] by (auto simp: eval_nat_numeral)
  have t: "startswith (lower (dropWhile is_space v)) ''topic'' \<and>
           drop (?m + 1 + length (takeWhile is_space v) + 5) x = [] \<longleftrightarrow>
           lower (dropWhile is_space v) = ''topic''" if "?u = c # v" for c v
  proof -
    have "drop (?m + 1 + length (takeWhile is_space v) + 5) x =
            drop (1 + length (takeWhile is_space v) + 5) ?u"
      using drop_past_space [of x "1 + length (takeWhile is_space v) + 5"] by (simp add: ac_simps)
    also have "\<dots> = drop (length (takeWhile is_space v) + 5) v"
      using that by (simp add: eval_nat_numeral)
    also have "\<dots> = drop 5 (dropWhile is_space v)"
      by (rule drop_past_space)
    finally show ?thesis
      using startswith_all [of "dropWhile is_space v" "''topic''"] by (simp add: eval_nat_numeral)
  qed
  have inT: "?m + 1 + length (takeWhile is_space v) + 5 \<in> set (brand_lengths x)"
    if "?u = CHR ''-'' # v" "startswith (lower (dropWhile is_space v)) ''topic''" for v
    using that by (simp add: brand_lengths_def Let_def)
  have inV: "?m + 4 \<in> set (brand_lengths x)" if "startswith (lower ?u) ''vevo''"
    using that by (simp add: brand_lengths_def Let_def)
  have inO: "?m + 8 \<in> set (brand_lengths x)" if "startswith (lower ?u) ''official''"
    using that by (simp add: brand_lengths_def Let_def)
  show ?thesis
  proof
    assume "\<exists>k \<in> set (brand_lengths x). drop k x = []"
    then obtain k where k: "k \<in> set (brand_lengths x)" and d: "drop k x = []" by blast
    from k show "is_brand_suffix x"
    proof (cases rule: brand_lengths_cases)
      case (T w)
      from t [OF T(1)] T(2,3) d have "lower (dropWhile is_space w) = ''topic''" by blast
      with T(1) show ?thesis by (simp add: is_brand_suffix_def Let_def)
    next
      case V
      with v d have "lower ?u = ''vevo''" by blast
      then show ?thesis by (simp add: is_brand_suffix_def Let_def)
    next
      case O
      with o d have "lower ?u = ''official''" by blast
      then show ?thesis by (simp add: is_brand_suffix_def Let_def)
    qed
  next
    assume "is_brand_suffix x"
    then have "lower ?u = ''vevo'' \<or> lower ?u = ''official'' \<or>
        (\<exists>w. ?u = CHR ''-'' # w \<and> lower (dropWhile is_space w) = ''topic'')"
      unfolding is_brand_suffix_def Let_def by (cases ?u) (simp_all add: lower_def)
    then consider (V) "lower ?u = ''vevo''" | (O) "lower ?u = ''official''"
      | (T) w where "?u = CHR ''-'' # w" "lower (dropWhile is_space w) = ''topic''"
      by blast
    then show "\<exists>k \<in> set (brand_lengths x). drop k x = []"
    proof cases
      case V
      with v have a: "startswith (lower ?u) ''vevo''" and b: "drop (?m + 4) x = []" by blast+
      from inV [OF a] b show ?thesis by blast
    next
      case O
      with o have a: "startswith (lower ?u) ''official''" and b: "drop (?m + 8) x = []" by blast+
      from inO [OF a] b show ?thesis by blast
    next
      case (T w)
      with t [OF T(1)] have a: "startswith (lower (dropWhile is_space w)) ''topic''"
        and b: "drop (?m + 1 + length (takeWhile is_space w) + 5) x = []" by blast+
      from inT [OF T(1) a] b show ?thesis by blast
    qed
  qed
qed



lemma startswith_lower_snoc:
  assumes "CHR 0x0A \<notin> set w"
  shows "startswith (lower (u @ [CHR 0x0A])) w \<longleftrightarrow> startswith (lower u) w"
proof (cases "length w \<le> length u")
  case True
  then show ?thesis by (simp add: startswith_def lower_def)
next
  case False
  have nl: "lower_char (CHR 0x0A) = CHR 0x0A" by code_simp
  from False have a: "take (length w) (lower (u @ [CHR 0x0A])) = lower u @ [CHR 0x0A]"
    by (simp add: lower_def nl)
  from assms have "lower u @ [CHR 0x0A] \<noteq> w" by auto
  with a have "\<not> startswith (lower (u @ [CHR 0x0A])) w"
    by (simp add: startswith_def)
  moreover from False have "\<not> startswith (lower u) w"
    using startswith_length [of "lower u" w] by auto
  ultimately show ?thesis by simp
qed

lemma spaces_snoc:
  assumes "dropWhile is_space x \<noteq> []"
  shows "dropWhile is_space (x @ [c]) = dropWhile is_space x @ [c]"
    and "takeWhile is_space (x @ [c]) = takeWhile is_space x"
proof -
  from assms obtain y where "y \<in> set x" "\<not> is_space y"
    by (auto simp: dropWhile_eq_Nil_conv)
  then show "dropWhile is_space (x @ [c]) = dropWhile is_space x @ [c]"
    and "takeWhile is_space (x @ [c]) = takeWhile is_space x"
    by (simp_all add: dropWhile_append1 takeWhile_append1)
qed

lemma spaces_snoc_newline:
  assumes "dropWhile is_space x = []"
  shows "dropWhile is_space (x @ [CHR 0x0A]) = []"
  using assms by (simp add: dropWhile_eq_Nil_conv is_space_def)

lemma brand_lengths_newline: "brand_lengths (x @ [CHR 0x0A]) = brand_lengths x"
proof (cases "dropWhile is_space x")
  case Nil
  show ?thesis
    unfolding brand_lengths_def Let_def Nil spaces_snoc_newline [OF Nil]
    by (simp add: startswith_def lower_def)
next
  case (Cons c v)
  let ?m = "length (takeWhile is_space x)"
  from Cons have ne: "dropWhile is_space x \<noteq> []" by simp
  have d: "dropWhile is_space (x @ [CHR 0x0A]) = c # (v @ [CHR 0x0A])"
    using spaces_snoc(1) [OF ne] Cons by simp
  have tw: "takeWhile is_space (x @ [CHR 0x0A]) = takeWhile is_space x"
    by (rule spaces_snoc(2) [OF ne])
  have V: "startswith (lower (c # (v @ [CHR 0x0A]))) ''vevo'' \<longleftrightarrow> startswith (lower (c # v)) ''vevo''"
    using startswith_lower_snoc [of "''vevo''" "c # v"] by simp
  have O: "startswith (lower (c # (v @ [CHR 0x0A]))) ''official'' \<longleftrightarrow>
           startswith (lower (c # v)) ''official''"
    using startswith_lower_snoc [of "''official''" "c # v"] by simp
  have T: "(if c = CHR ''-'' \<and> startswith (lower (dropWhile is_space (v @ [CHR 0x0A]))) ''topic''
            then [?m + 1 + length (takeWhile is_space (v @ [CHR 0x0A])) + 5] else []) =
           (if c = CHR ''-'' \<and> startswith (lower (dropWhile is_space v)) ''topic''
            then [?m + 1 + length (takeWhile is_space v) + 5] else [])"
  proof (cases "dropWhile is_space v = []")
    case True
    show ?thesis
      unfolding True spaces_snoc_newline [OF True]
      by (simp add: startswith_def lower_def)
  next
    case False
    from spaces_snoc [OF False, of "CHR 0x0A"]
      startswith_lower_snoc [of "''topic''" "dropWhile is_space v"]
    show ?thesis by simp
  qed
  show ?thesis
    unfolding brand_lengths_def Let_def d tw Cons list.case T V O ..
qed

lemma match_len_artist_suffix:
  "match_len True re_artist_suffix p s =
     (if is_brand_suffix s then Some (length s)
      else if s \<noteq> [] \<and> last s = CHR 0x0A \<and> is_brand_suffix (butlast s) then Some (length s - 1)
      else None)"
proof -
  let ?ok = "\<lambda>k. drop k s = [] \<or> drop k s = [CHR 0x0A]"
  let ?V = "filter ?ok (brand_lengths s)"
  have ml: "match_len True re_artist_suffix p s = (case ?V of [] \<Rightarrow> None | k # _ \<Rightarrow> Some k)"
    by (rule match_len_artist_suffix_lengths)
  have full: "k = length s \<and> is_brand_suffix s"
    if "k \<in> set (brand_lengths s)" "drop k s = []" for k
    using that brand_lengths_bound [of k s] brand_lengths_full [of s] by auto
  have snoc: "brand_lengths s = brand_lengths b \<and> butlast s = b \<and> s \<noteq> [] \<and> last s = CHR 0x0A"
    if "s = b @ [CHR 0x0A]" for b
    using that by (simp add: brand_lengths_newline)
  have part: "k = length s - 1 \<and> s \<noteq> [] \<and> last s = CHR 0x0A \<and> is_brand_suffix (butlast s)"
    if "k \<in> set (brand_lengths s)" "drop k s = [CHR 0x0A]" for k
  proof -
    from that(2) have "length (drop k s) = 1" by simp
    then have len: "length s = Suc k" by simp
    then have "take k s @ drop k s = s" by simp
    with that(2) have s: "s = take k s @ [CHR 0x0A]" by simp
    note b = snoc [OF s]
    from that(1) b have "k \<in> set (brand_lengths (butlast s))" by simp
    moreover from len have "drop k (butlast s) = []" by simp
    ultimately have "is_brand_suffix (butlast s)"
      using brand_lengths_full [of "butlast s"] by blast
    with b len show ?thesis by simp
  qed
  have not_nl: "\<not> (s \<noteq> [] \<and> last s = CHR 0x0A \<and> is_brand_suffix (butlast s))" if "is_brand_suffix s"
  proof
    assume a: "s \<noteq> [] \<and> last s = CHR 0x0A \<and> is_brand_suffix (butlast s)"
    then have "butlast s @ [last s] = s" by (intro append_butlast_last_id) simp
    with a have s: "s = butlast s @ [CHR 0x0A]" by simp
    note b = snoc [OF s]
    from that obtain k where k: "k \<in> set (brand_lengths s)" "drop k s = []"
      using brand_lengths_full [of s] by blast
    then have "k = length s" using full by blast
    moreover from k(1) b have "k \<in> set (brand_lengths (butlast s))" by simp
    then have "k \<le> length (butlast s)" by (rule brand_lengths_bound)
    moreover have "length (butlast s) = length s - 1" by simp
    moreover from a have "0 < length s" by simp
    ultimately show False by linarith
  qed
  define V where "V = filter (\<lambda>k. drop k s = [] \<or> drop k s = [CHR 0x0A]) (brand_lengths s)"
  have mlV: "match_len True re_artist_suffix p s = (case V of [] \<Rightarrow> None | k # _ \<Rightarrow> Some k)"
    unfolding V_def by (rule ml)
  have memV: "k \<in> set V \<longleftrightarrow>
      k \<in> set (brand_lengths s) \<and> (drop k s = [] \<or> drop k s = [CHR 0x0A])" for k
    by (simp add: V_def)
  have hd_all: "V = [] \<or> (\<exists>ks. V = n # ks)" if "\<And>k. k \<in> set V \<Longrightarrow> k = n" for n
    using that by (cases V) auto
  show ?thesis
  proof (cases "is_brand_suffix s")
    case True
    then obtain k where k: "k \<in> set (brand_lengths s)" "drop k s = []"
      using brand_lengths_full [of s] by blast
    then have "k \<in> set V" by (simp add: memV)
    then have ne: "V \<noteq> []" by auto
    have "k' = length s" if "k' \<in> set V" for k'
      using that full [of k'] part [of k'] not_nl [OF True] unfolding memV by blast
    from hd_all [OF this] ne obtain ks where "V = length s # ks" by blast
    with True show ?thesis
      by (simp add: mlV)
  next
    case False
    show ?thesis
    proof (cases "s \<noteq> [] \<and> last s = CHR 0x0A \<and> is_brand_suffix (butlast s)")
      case True
      then have "butlast s @ [last s] = s" by (intro append_butlast_last_id) simp
      with True have s: "s = butlast s @ [CHR 0x0A]" by simp
      note b = snoc [OF s]
      from True obtain k where k: "k \<in> set (brand_lengths (butlast s))" "drop k (butlast s) = []"
        using brand_lengths_full [of "butlast s"] by blast
      from k(1) have le: "k \<le> length (butlast s)" by (rule brand_lengths_bound)
      with k(2) have keq: "k = length (butlast s)" by simp
      from k(1) b have in_s: "k \<in> set (brand_lengths s)" by simp
      have "drop k s = [CHR 0x0A]"
        using True keq by (cases s rule: rev_cases) simp_all
      with in_s have "k \<in> set V" by (simp add: memV)
      then have ne: "V \<noteq> []" by auto
      have "k' = length s - 1" if "k' \<in> set V" for k'
        using that full [of k'] part [of k'] False unfolding memV by blast
      from hd_all [OF this] ne obtain ks where "V = (length s - 1) # ks" by blast
      with True False show ?thesis
        by (simp add: mlV)
    next
      case nl: False
      have "k' \<notin> set V" for k'
        using full [of k'] part [of k'] False nl unfolding memV by blast
      then have "V = []"
        by (cases V) auto
      with False nl show ?thesis
        by (simp add: mlV)
    qed
  qed
qed


lemma not_brand_suffix_Nil [simp]: "\<not> is_brand_suffix []"
  by (simp add: is_brand_suffix_def lower_def)

lemma sub_from_artist_suffix:
  "sub_from True re_artist_suffix [] p 0 s = strip_brand_suffix s"
proof (induction s arbitrary: p)
  case Nil
  then show ?case by simp
next
  case (Cons c cs)
  have nil: "sub_from True re_artist_suffix [] q 0 [] = []" for q
    by simp
  have "\<not> is_brand_suffix [CHR 0x0A]"
    by (simp add: is_brand_suffix_def is_space_def lower_def)
  then have nl: "sub_from True re_artist_suffix [] q 0 [CHR 0x0A] = [CHR 0x0A]" for q
    by (simp add: match_len_artist_suffix)
  show ?case
  proof (cases "is_brand_suffix (c # cs)")
    case True
    then have "match_len True re_artist_suffix p (c # cs) = Some (Suc (length cs))"
      by (simp add: match_len_artist_suffix)
    then have "sub_from True re_artist_suffix [] p 0 (c # cs) =
                 sub_from True re_artist_suffix [] (Suc p) (length cs) cs"
      by simp
    also have "\<dots> = sub_from True re_artist_suffix [] (Suc p + length cs) 0 (drop (length cs) cs)"
      by (rule sub_from_skip) simp
    also have "\<dots> = []"
      by (simp only: drop_all [OF order_refl] nil)
    finally show ?thesis
      using True by simp
  next
    case False
    show ?thesis
    proof (cases "last (c # cs) = CHR 0x0A \<and> is_brand_suffix (butlast (c # cs))")
      case True
      then have ne: "cs \<noteq> []"
        by (cases cs) auto
      then obtain n where n: "length cs = Suc n"
        by (cases cs) auto
      from True False have "match_len True re_artist_suffix p (c # cs) = Some (Suc n)"
        by (simp add: match_len_artist_suffix n)
      then have "sub_from True re_artist_suffix [] p 0 (c # cs) =
                   sub_from True re_artist_suffix [] (Suc p) n cs"
        by simp
      also have "\<dots> = sub_from True re_artist_suffix [] (Suc p + n) 0 (drop n cs)"
        by (rule sub_from_skip) (simp add: n)
      also have "drop n cs = [last cs]"
        using ne n by (cases cs rule: rev_cases) simp_all
      also have "last cs = CHR 0x0A"
        using True ne by simp
      finally have r: "sub_from True re_artist_suffix [] p 0 (c # cs) = [CHR 0x0A]"
        by (simp only: nl)
      have "strip_brand_suffix (c # cs) = [CHR 0x0A]"
        using True False by (simp only: strip_brand_suffix.simps simp_thms if_True if_False)
      with r show ?thesis by simp
    next
      case nb: False
      with False have "match_len True re_artist_suffix p (c # cs) = None"
        by (simp add: match_len_artist_suffix)
      then have "sub_from True re_artist_suffix [] p 0 (c # cs) =
                   c # sub_from True re_artist_suffix [] (Suc p) 0 cs"
        by simp
      moreover have "strip_brand_suffix (c # cs) = c # strip_brand_suffix cs"
        using False nb by (simp only: strip_brand_suffix.simps simp_thms if_True if_False)
      ultimately show ?thesis
        by (simp only: Cons.IH)
    qed
  qed
qed

lemma re_sub_artist_suffix: "re_sub True re_artist_suffix [] artist = strip_brand_suffix artist"
  by (simp add: re_sub_def sub_from_artist_suffix)

text \<open>Claim C8 says that for every artist string that is present the builder returns three
  candidates. For the empty string, which is present, it returns the one string of the
  track-only path: \<open>not artist\<close> holds for it as for \<open>None\<close>.\<close>

theorem empty_artist_is_one_str:
  "build_spotify_query (PyStr []) (PyStr ''Song'') = QStr ''track:Song''"
  by (simp add: build_spotify_query_def)

text \<open>Claim C8, amended: for every artist string that is not empty (and is not
  \<open>various artists\<close> in any mix of upper and lower case, the other case of the track-only
  path), the builder strips the trailing brand suffix, \<open>- topic\<close>, \<open>vevo\<close> or \<open>official\<close>
  in any mix of upper and lower case and at the end of the artist only, and returns exactly
  three candidates, in this order: \<open>artist:<cleaned> track:<track>\<close>, then
  \<open><cleaned> <track>\<close>, then \<open><track>\<close>. The artist \<open>The Band - Topic\<close> with the
  track \<open>Song\<close> gives \<open>artist:The Band track:Song\<close>, \<open>The Band Song\<close> and \<open>Song\<close>.\<close>

theorem three_candidates:
  assumes "artist \<noteq> []" and "lower artist \<noteq> ''various artists''"
  shows "build_spotify_query (PyStr artist) (PyStr track) =
           QList [PyStr (''artist:'' @ strip_brand_suffix artist @ '' track:'' @ track),
                  PyStr (strip_brand_suffix artist @ '' '' @ track),
                  PyStr track]"
  using assms by (simp add: build_spotify_query_def Let_def re_sub_artist_suffix)

theorem three_candidates_witness:
  "''The Band - Topic'' \<noteq> [] \<and> lower ''The Band - Topic'' \<noteq> ''various artists'' \<and>
   build_spotify_query (PyStr ''The Band - Topic'') (PyStr ''Song'') =
     QList [PyStr ''artist:The Band track:Song'', PyStr ''The Band Song'', PyStr ''Song'']"
proof -
  have a: "''The Band - Topic'' \<noteq> []" by simp
  have b: "lower ''The Band - Topic'' \<noteq> ''various artists''" by code_simp
  have c: "strip_brand_suffix ''The Band - Topic'' = ''The Band''" by code_simp
  from three_candidates [OF a b, of "''Song''"] have
    "build_spotify_query (PyStr ''The Band - Topic'') (PyStr ''Song'') =
     QList [PyStr (''artist:'' @ ''The Band'' @ '' track:'' @ ''Song''),
            PyStr (''The Band'' @ '' '' @ ''Song''), PyStr ''Song'']"
    by (simp only: c)
  then have "build_spotify_query (PyStr ''The Band - Topic'') (PyStr ''Song'') =
     QList [PyStr ''artist:The Band track:Song'', PyStr ''The Band Song'', PyStr ''Song'']"
    by simp
  with a b show ?thesis by blast
qed

text \<open>The three suffixes in upper and lower case, and artists in which the words do not
  stand at the end.\<close>

lemma artist_suffix_examples:
  "build_spotify_query (PyStr ''QueenVEVO'') (PyStr ''Song'') =
     QList [PyStr ''artist:Queen track:Song'', PyStr ''Queen Song'', PyStr ''Song'']"
  "build_spotify_query (PyStr ''Some Band Official'') (PyStr ''Song'') =
     QList [PyStr ''artist:Some Band track:Song'', PyStr ''Some Band Song'', PyStr ''Song'']"
  "build_spotify_query (PyStr ''Some Band -  tOPIC'') (PyStr ''Song'') =
     QList [PyStr ''artist:Some Band track:Song'', PyStr ''Some Band Song'', PyStr ''Song'']"
  "build_spotify_query (PyStr ''Official Band'') (PyStr ''Song'') =
     QList [PyStr ''artist:Official Band track:Song'', PyStr ''Official Band Song'', PyStr ''Song'']"
  "build_spotify_query (PyStr ''Vevo Kid'') (PyStr ''Song'') =
     QList [PyStr ''artist:Vevo Kid track:Song'', PyStr ''Vevo Kid Song'', PyStr ''Song'']"
  "build_spotify_query (PyStr ''Hot Topic'') (PyStr ''Song'') =
     QList [PyStr ''artist:Hot Topic track:Song'', PyStr ''Hot Topic Song'', PyStr ''Song'']"
  by code_simp+

subsection \<open>Normalization twice\<close>







end
